theory Spec2Isabelle
  imports Main "HOL-Library.Sublist"
begin

section \<open>Python values and the Sequence Source\<close>

text \<open>
  The queue of \<^verbatim>\<open>AsyncDataLoaderMixin\<close> carries arbitrary Python objects. The code
  inspects a dequeued object in two ways only: \<^verbatim>\<open>batch is None\<close> and
  \<^verbatim>\<open>isinstance(batch, Exception)\<close>. Three kinds of object are therefore told apart:
  \<^verbatim>\<open>None\<close>, an instance of \<^verbatim>\<open>Exception\<close> (identified by a message), and any other
  object (identified by a number).
\<close>

datatype pyval = PyNone | PyExc string | PyData nat

text \<open>
  What a source can raise: an instance of \<^verbatim>\<open>Exception\<close>, the class that line 103
  catches, or an instance of another subclass of \<^verbatim>\<open>BaseException\<close>
  (\<^verbatim>\<open>KeyboardInterrupt\<close>, \<^verbatim>\<open>SystemExit\<close>, \<^verbatim>\<open>GeneratorExit\<close>), which line 103 lets pass.
\<close>

datatype exc = Exc string | BaseExc string

text \<open>
  One call of \<^verbatim>\<open>self._iterate()\<close> gives one pass: the finite list of objects the
  generator yields, and how it stops: \<open>None\<close> when it is exhausted, \<open>Some x\<close> when it
  raises \<open>x\<close> after the last yielded object. The source is restartable:
  \<open>src k\<close> is the pass that the \<open>k\<close>-th call (counted from 0) of \<^verbatim>\<open>_iterate()\<close> gives.
  A call of \<^verbatim>\<open>_iterate()\<close> that raises at once is the pass \<open>([], Some x)\<close>.
  \<^verbatim>\<open>_process_batch\<close> is a parameter \<open>hook\<close>, a total function; the base class returns the
  batch unchanged.
\<close>

type_synonym pass = "pyval list \<times> exc option"
type_synonym source = "nat \<Rightarrow> pass"
type_synonym hook = "pyval \<Rightarrow> pyval"

definition process_batch :: hook where
  "process_batch batch = batch"

section \<open>The state of a loader\<close>

text \<open>
  The program counter of the thread that runs \<^verbatim>\<open>_async_worker\<close>. Each constructor is a
  point where the thread reads or writes shared state (the event, the queue) next:
  \<^item> \<open>NotStarted\<close>: the \<^verbatim>\<open>Thread\<close> object exists, \<^verbatim>\<open>start()\<close> was not called;
  \<^item> \<open>LoopHead\<close>: line 97, about to test \<^verbatim>\<open>finished_event\<close>;
  \<^item> \<open>ForNext items out\<close>: line 98, about to ask the generator, which still has \<open>items\<close>
    to yield and then stops as \<open>out\<close> says, for its next object;
  \<^item> \<open>PutBatch b items out\<close>: line 101, about to put \<open>b\<close>;
  \<^item> \<open>PutPassMarker\<close>: line 102; \<open>PutExc e\<close>: line 104; \<open>PutExcMarker\<close>: line 105;
    \<open>PutFinalMarker\<close>: line 107; \<open>PutFinalRaising b\<close>: line 107 again, reached while
    the exception \<open>b\<close>, which line 103 did not catch, is on its way out of the thread;
  \<^item> \<open>Exited\<close>: the thread has returned.
\<close>

datatype wpc =
    NotStarted
  | LoopHead
  | ForNext "pyval list" "exc option"
  | PutBatch pyval "pyval list" "exc option"
  | PutPassMarker
  | PutExc string
  | PutExcMarker
  | PutFinalMarker
  | PutFinalRaising string
  | Exited

text \<open>The four attributes that \<^verbatim>\<open>__init__\<close> creates only when the queue size is positive.\<close>

record async_part =
  finished_event :: bool
  queue :: "pyval list"
  thread :: wpc
  started :: bool

text \<open>
  A generator made by \<^verbatim>\<open>__iter__\<close> and not yet finished is suspended either in the
  loop of line 121 (it holds no data of its own) or in the loop of line 129 (it holds the
  rest of the pass it pulls from).
\<close>

datatype gen_pc = AsyncLoop | SyncLoop "pyval list" "exc option"

text \<open>Where the calling thread is inside \<^verbatim>\<open>close_async_loader\<close>, if it is.\<close>

datatype close_pc = NotClosing | Draining | Joining

text \<open>
  What can be observed of a run: the start of the thread, every \<^verbatim>\<open>queue.put\<close> of the
  worker with the line it is on, what a generator hands to its consumer (a yielded batch,
  a raised exception, its end), every object the drain loop throws away, the return
  of \<^verbatim>\<open>close_async_loader\<close>, and an exception that leaves the worker thread uncaught.
  The \<^verbatim>\<open>print\<close> calls are left out.
\<close>

datatype event =
    ThreadStart
  | Put nat pyval
  | Yield pyval
  | Raise exc
  | IterEnd
  | Discard pyval
  | CloseReturn
  | Uncaught string

record loader =
  async_loader_queue_size :: int
  async :: "async_part option"
  calls :: nat
  gen :: "gen_pc option"
  closing :: close_pc
  trace :: "event list"

text \<open>
  \<open>calls\<close> counts the calls of \<^verbatim>\<open>_iterate()\<close> made so far, \<open>gen\<close> is the live generator
  of the consumer, \<open>trace\<close> the events so far, oldest first.
\<close>

section \<open>Construction\<close>

text \<open>
  \<^verbatim>\<open>__init__\<close> (lines 58 to 72) stores the size and creates event, queue, thread and flag
  when the size is positive. It has no \<^verbatim>\<open>raise\<close>.
\<close>

definition init :: "int \<Rightarrow> loader" where
  "init n =
     \<lparr> async_loader_queue_size = n,
       async = (if n > 0
                then Some \<lparr> finished_event = False, queue = [], thread = NotStarted,
                            started = False \<rparr>
                else None),
       calls = 0, gen = None, closing = NotClosing, trace = [] \<rparr>"

datatype config_error = ConfigurationError

definition construct :: "int \<Rightarrow> config_error + loader" where
  "construct n = Inr (init n)"

section \<open>The worker thread\<close>

text \<open>
  \<^verbatim>\<open>queue.put(v)\<close> on a \<^verbatim>\<open>Queue(maxsize)\<close> with positive \<open>maxsize\<close> blocks while the queue
  holds \<open>maxsize\<close> objects: the step is not enabled then (\<open>None\<close>).
\<close>

definition put :: "nat \<Rightarrow> pyval \<Rightarrow> wpc \<Rightarrow> loader \<Rightarrow> async_part \<Rightarrow> loader option" where
  "put line v pc s a =
     (if int (length (queue a)) < async_loader_queue_size s
      then Some (s\<lparr> async := Some (a\<lparr> queue := queue a @ [v], thread := pc \<rparr>),
                    trace := trace s @ [Put line v] \<rparr>)
      else None)"

definition goto :: "wpc \<Rightarrow> loader \<Rightarrow> async_part \<Rightarrow> loader option" where
  "goto pc s a = Some (s\<lparr> async := Some (a\<lparr> thread := pc \<rparr>) \<rparr>)"

text \<open>
  One step of \<^verbatim>\<open>_async_worker\<close> (lines 96 to 107). An \<^verbatim>\<open>Exception\<close> of the source goes
  through lines 104, 105 and 107. Any other exception skips the \<^verbatim>\<open>except\<close> clause: the
  \<^verbatim>\<open>finally\<close> clause puts its marker, and the exception leaves the thread.
\<close>

definition async_worker :: "source \<Rightarrow> loader \<Rightarrow> loader option" where
  "async_worker src s =
     (case async s of
        None \<Rightarrow> None
      | Some a \<Rightarrow>
         (case thread a of
            NotStarted \<Rightarrow> None
          | LoopHead \<Rightarrow>
              if finished_event a then goto PutFinalMarker s a
              else (case src (calls s) of
                      (items, out) \<Rightarrow> goto (ForNext items out) (s\<lparr> calls := calls s + 1 \<rparr>) a)
          | ForNext items out \<Rightarrow>
              (case items of
                 [] \<Rightarrow> (case out of None \<Rightarrow> goto PutPassMarker s a
                                   | Some (Exc e) \<Rightarrow> goto (PutExc e) s a
                                   | Some (BaseExc b) \<Rightarrow> goto (PutFinalRaising b) s a)
               | batch # rest \<Rightarrow>
                   if finished_event a then goto PutPassMarker s a
                   else goto (PutBatch batch rest out) s a)
          | PutBatch batch rest out \<Rightarrow> put 101 batch (ForNext rest out) s a
          | PutPassMarker \<Rightarrow> put 102 PyNone LoopHead s a
          | PutExc e \<Rightarrow> put 104 (PyExc e) PutExcMarker s a
          | PutExcMarker \<Rightarrow> put 105 PyNone PutFinalMarker s a
          | PutFinalMarker \<Rightarrow> put 107 PyNone Exited s a
          | PutFinalRaising b \<Rightarrow>
              map_option (\<lambda>t. t\<lparr> trace := trace t @ [Uncaught b] \<rparr>) (put 107 PyNone Exited s a)
          | Exited \<Rightarrow> None))"

section \<open>The consumer: iteration\<close>

text \<open>
  The start of \<^verbatim>\<open>__iter__\<close> (lines 115 to 119, or the call of \<^verbatim>\<open>_iterate()\<close> in line
  129), run when the consumer asks a fresh generator for its first batch. The consumer
  is one thread: it is not inside \<^verbatim>\<open>close_async_loader\<close> then. The model follows one
  generator at a time: a new one is asked for when the last one has ended or was dropped.
\<close>

definition iter_start :: "source \<Rightarrow> loader \<Rightarrow> loader option" where
  "iter_start src s =
     (if closing s \<noteq> NotClosing \<or> gen s \<noteq> None then None
      else if async_loader_queue_size s > 0 then
        (case async s of
           None \<Rightarrow> None
         | Some a \<Rightarrow>
             if \<not> started a
             then Some (s\<lparr> async := Some (a\<lparr> started := True, thread := LoopHead \<rparr>),
                           gen := Some AsyncLoop, trace := trace s @ [ThreadStart] \<rparr>)
             else Some (s\<lparr> gen := Some AsyncLoop \<rparr>))
      else (case src (calls s) of
              (items, out) \<Rightarrow>
                Some (s\<lparr> calls := calls s + 1, gen := Some (SyncLoop items out) \<rparr>)))"

text \<open>What the generator does with one object \<open>batch\<close> it has in hand (lines 123 to 127).\<close>

definition deliver :: "hook \<Rightarrow> pyval \<Rightarrow> event" where
  "deliver process batch =
     (if batch = PyNone then IterEnd
      else (case batch of PyExc e \<Rightarrow> Raise (Exc e) | _ \<Rightarrow> Yield (process batch)))"

text \<open>The generator goes on after a yield only: \<^verbatim>\<open>break\<close> and \<^verbatim>\<open>raise\<close> end it.\<close>

definition ends_iter :: "pyval \<Rightarrow> bool" where
  "ends_iter batch = (case batch of PyData _ \<Rightarrow> False | _ \<Rightarrow> True)"

text \<open>
  One resumption of the live generator. In the loop of line 121 \<^verbatim>\<open>queue.get()\<close> blocks on
  an empty queue; \<^verbatim>\<open>break\<close> and \<^verbatim>\<open>raise\<close> finish the generator. In the loop of line 129
  every object of the pass is yielded, whatever it is, and an exception of the source
  passes through to the consumer.
\<close>

definition iter_next :: "hook \<Rightarrow> loader \<Rightarrow> loader option" where
  "iter_next process s =
     (if closing s \<noteq> NotClosing then None
      else (case gen s of
        None \<Rightarrow> None
      | Some AsyncLoop \<Rightarrow>
         (case async s of
            None \<Rightarrow> None
          | Some a \<Rightarrow>
             (case queue a of
                [] \<Rightarrow> None
              | batch # q \<Rightarrow>
                  Some (s\<lparr> async := Some (a\<lparr> queue := q \<rparr>),
                           gen := (if ends_iter batch then None else Some AsyncLoop),
                           trace := trace s @ [deliver process batch] \<rparr>)))
      | Some (SyncLoop items out) \<Rightarrow>
         (case items of
            [] \<Rightarrow> Some (s\<lparr> gen := None,
                           trace := trace s @ [case out of None \<Rightarrow> IterEnd | Some x \<Rightarrow> Raise x] \<rparr>)
          | batch # rest \<Rightarrow>
              Some (s\<lparr> gen := Some (SyncLoop rest out),
                       trace := trace s @ [Yield (process batch)] \<rparr>))))"

text \<open>The consumer leaves its \<^verbatim>\<open>for\<close> loop early: the suspended generator is dropped.\<close>

definition iter_drop :: "loader \<Rightarrow> loader option" where
  "iter_drop s =
     (if closing s \<noteq> NotClosing \<or> gen s = None then None else Some (s\<lparr> gen := None \<rparr>))"

section \<open>The consumer: closing\<close>

text \<open>
  \<^verbatim>\<open>close_async_loader\<close>, lines 78 to 80: the test and \<^verbatim>\<open>finished_event.set()\<close>. When the
  test fails the method returns at once.
\<close>

definition close_call :: "loader \<Rightarrow> loader option" where
  "close_call s =
     (if closing s \<noteq> NotClosing then None
      else if async_loader_queue_size s > 0 then
        (case async s of
           None \<Rightarrow> None
         | Some a \<Rightarrow>
             if started a
             then Some (s\<lparr> async := Some (a\<lparr> finished_event := True \<rparr>), closing := Draining \<rparr>)
             else Some (s\<lparr> trace := trace s @ [CloseReturn] \<rparr>))
      else Some (s\<lparr> trace := trace s @ [CloseReturn] \<rparr>))"

text \<open>
  Lines 81 to 88: one turn of the drain loop (\<^verbatim>\<open>get_nowait\<close> raises \<^verbatim>\<open>Empty\<close> on an empty
  queue, which leaves the loop), or \<^verbatim>\<open>thread.join()\<close>, which blocks until the thread has
  returned.
\<close>

definition close_step :: "loader \<Rightarrow> loader option" where
  "close_step s =
     (case async s of
        None \<Rightarrow> None
      | Some a \<Rightarrow>
         (case closing s of
            NotClosing \<Rightarrow> None
          | Draining \<Rightarrow>
             (case queue a of
                [] \<Rightarrow> Some (s\<lparr> closing := Joining \<rparr>)
              | v # q \<Rightarrow> Some (s\<lparr> async := Some (a\<lparr> queue := q \<rparr>),
                                  trace := trace s @ [Discard v] \<rparr>))
          | Joining \<Rightarrow>
             if thread a = Exited
             then Some (s\<lparr> closing := NotClosing, trace := trace s @ [CloseReturn] \<rparr>)
             else None))"

section \<open>Interleaved runs\<close>

text \<open>
  The two threads interleave at the granularity of the steps above. A schedule is the
  list of who moves next: the worker, or the calling thread with one of its five moves.
  A move that is blocked, or that the code cannot make in that state, ends the run with
  \<open>None\<close>.
\<close>

datatype action = Worker | CallIter | Next | Drop | CallClose | CloseStep

fun step :: "source \<Rightarrow> hook \<Rightarrow> action \<Rightarrow> loader \<Rightarrow> loader option" where
  "step src process Worker s = async_worker src s"
| "step src process CallIter s = iter_start src s"
| "step src process Next s = iter_next process s"
| "step src process Drop s = iter_drop s"
| "step src process CallClose s = close_call s"
| "step src process CloseStep s = close_step s"

fun run :: "source \<Rightarrow> hook \<Rightarrow> action list \<Rightarrow> loader \<Rightarrow> loader option" where
  "run src process [] s = Some s"
| "run src process (a # as) s =
     (case step src process a s of None \<Rightarrow> None | Some s' \<Rightarrow> run src process as s')"

text \<open>What the consumer of the generators sees, and what the worker puts.\<close>

fun is_seen :: "event \<Rightarrow> bool" where
  "is_seen (Yield _) = True"
| "is_seen (Raise _) = True"
| "is_seen IterEnd = True"
| "is_seen _ = False"

definition seen :: "loader \<Rightarrow> event list" where
  "seen s = filter is_seen (trace s)"

fun is_put :: "event \<Rightarrow> bool" where
  "is_put (Put _ _) = True"
| "is_put _ = False"

definition puts :: "loader \<Rightarrow> event list" where
  "puts s = filter is_put (trace s)"

section \<open>Iterations, as the consumer sees them\<close>

text \<open>
  An ordinary batch is an object that is neither \<^verbatim>\<open>None\<close> nor an instance of
  \<^verbatim>\<open>Exception\<close>. A pass is clean when all its batches are ordinary and the generator
  ends without raising.
\<close>

fun ordinary :: "pyval \<Rightarrow> bool" where
  "ordinary (PyData d) = True"
| "ordinary _ = False"

definition clean_pass :: "pass \<Rightarrow> bool" where
  "clean_pass p = (list_all ordinary (fst p) \<and> snd p = None)"

text \<open>
  The trace cut into the finished iterations: for each generator that has ended, the
  batches it yielded and how it ended (\<open>None\<close>: it returned; \<open>Some x\<close>: it raised \<open>x\<close>).
  The cut is the right one for a consumer that runs every generator to its end, that is
  for a schedule without \<open>Drop\<close>.
\<close>

fun split_iter :: "pyval list \<Rightarrow> event list \<Rightarrow> (pyval list \<times> exc option) list" where
  "split_iter acc [] = []"
| "split_iter acc (Yield v # es) = split_iter (acc @ [v]) es"
| "split_iter acc (IterEnd # es) = (acc, None) # split_iter [] es"
| "split_iter acc (Raise x # es) = (acc, Some x) # split_iter [] es"
| "split_iter acc (_ # es) = split_iter acc es"

definition iterations :: "loader \<Rightarrow> (pyval list \<times> exc option) list" where
  "iterations s = split_iter [] (trace s)"

fun ending :: "pyval \<Rightarrow> exc option" where
  "ending (PyExc e) = Some (Exc e)"
| "ending _ = None"

text \<open>A schedule in which the consumer neither closes the loader nor abandons a generator.\<close>

definition plain :: "action list \<Rightarrow> bool" where
  "plain sch = (CallClose \<notin> set sch \<and> Drop \<notin> set sch)"

section \<open>What the worker enqueues\<close>

text \<open>
  The objects that \<^verbatim>\<open>_async_worker\<close> puts for one pass while the event is not set
  (lines 98 to 107): the batches and the marker of line 102; or, when the generator
  raises an \<^verbatim>\<open>Exception\<close>, the batches, the exception (line 104), the marker of line 105
  and the marker of line 107; or, when it raises something else, the batches and the
  marker of line 107. \<open>stream src k n\<close> is what it puts for the passes \<open>k\<close> to
  \<open>k + n - 1\<close>; it puts nothing after a pass that raised.
\<close>

fun pass_out :: "pass \<Rightarrow> pyval list" where
  "pass_out (items, None) = items @ [PyNone]"
| "pass_out (items, Some (Exc e)) = items @ [PyExc e, PyNone, PyNone]"
| "pass_out (items, Some (BaseExc b)) = items @ [PyNone]"

fun stream :: "source \<Rightarrow> nat \<Rightarrow> nat \<Rightarrow> pyval list" where
  "stream src k 0 = []"
| "stream src k (Suc n) =
     pass_out (src k) @ (if snd (src k) = None then stream src (Suc k) n else [])"

text \<open>
  What the worker, at a given point of its code and with the event not set, still has to
  put before it is back at line 97 or has returned, and whether it returns after that.
\<close>

fun pending :: "wpc \<Rightarrow> pyval list" where
  "pending (ForNext items out) = pass_out (items, out)"
| "pending (PutBatch batch items out) = batch # pass_out (items, out)"
| "pending PutPassMarker = [PyNone]"
| "pending (PutExc e) = [PyExc e, PyNone, PyNone]"
| "pending PutExcMarker = [PyNone, PyNone]"
| "pending PutFinalMarker = [PyNone]"
| "pending (PutFinalRaising b) = [PyNone]"
| "pending _ = []"

fun last_pass :: "wpc \<Rightarrow> bool" where
  "last_pass (ForNext items out) = (out \<noteq> None)"
| "last_pass (PutBatch batch items out) = (out \<noteq> None)"
| "last_pass (PutExc e) = True"
| "last_pass PutExcMarker = True"
| "last_pass PutFinalMarker = True"
| "last_pass (PutFinalRaising b) = True"
| "last_pass Exited = True"
| "last_pass _ = False"

text \<open>
  What the worker puts when the generator raises \<open>x\<close>, how the iteration that takes these
  objects from the queue ends, and how many markers are left in the queue after it.
\<close>

fun fault_out :: "exc \<Rightarrow> pyval list" where
  "fault_out (Exc e) = [PyExc e, PyNone, PyNone]"
| "fault_out (BaseExc b) = [PyNone]"

fun fault_end :: "exc \<Rightarrow> exc option" where
  "fault_end (Exc e) = Some (Exc e)"
| "fault_end (BaseExc b) = None"

fun spare_markers :: "exc \<Rightarrow> nat" where
  "spare_markers (Exc e) = 2"
| "spare_markers (BaseExc b) = 0"

fun put_val :: "event \<Rightarrow> pyval" where
  "put_val (Put line v) = v"
| "put_val _ = PyNone"

definition put_vals :: "loader \<Rightarrow> pyval list" where
  "put_vals s = map put_val (puts s)"

fun put_line :: "event \<Rightarrow> nat" where
  "put_line (Put line v) = line"
| "put_line _ = 0"

definition at_line :: "nat \<Rightarrow> event list \<Rightarrow> nat" where
  "at_line line ps = count_list (map put_line ps) line"


text \<open>The exceptions that have left the worker thread uncaught.\<close>

fun is_uncaught :: "event \<Rightarrow> bool" where
  "is_uncaught (Uncaught b) = True"
| "is_uncaught _ = False"

definition uncaught :: "loader \<Rightarrow> nat" where
  "uncaught s = length (filter is_uncaught (trace s))"





text \<open>
  The place of batch \<open>i\<close> of pass \<open>p\<close> among the objects the worker puts, counted from 0.
\<close>

definition position :: "source \<Rightarrow> nat \<Rightarrow> nat \<Rightarrow> nat" where
  "position src p i = length (stream src 0 p) + i"

text \<open>
  The objects that have left the queue, in order: those a generator took (seen by the
  consumer as a yield, a raise or the end of the iteration) and those the drain loop of
  \<^verbatim>\<open>close_async_loader\<close> threw away. \<open>undiscard\<close> tells what a generator would have made
  of a discarded object.
\<close>

fun is_taken :: "event \<Rightarrow> bool" where
  "is_taken (Yield _) = True"
| "is_taken (Raise _) = True"
| "is_taken IterEnd = True"
| "is_taken (Discard _) = True"
| "is_taken _ = False"

definition taken :: "loader \<Rightarrow> event list" where
  "taken s = filter is_taken (trace s)"

fun undiscard :: "hook \<Rightarrow> event \<Rightarrow> event" where
  "undiscard h (Discard v) = deliver h v"
| "undiscard h ev = ev"

text \<open>The events that finish a generator.\<close>

fun is_end :: "event \<Rightarrow> bool" where
  "is_end IterEnd = True"
| "is_end (Raise _) = True"
| "is_end _ = False"

definition live :: "loader \<Rightarrow> nat" where
  "live s = (if gen s = None then 0 else 1)"

section \<open>The base class\<close>

text \<open>
  \<^verbatim>\<open>BaseDataLoader.__iter__\<close> (lines 37 and 38): the loader without the mixin pulls from
  \<^verbatim>\<open>_iterate()\<close> on the calling thread and yields every batch through
  \<^verbatim>\<open>_process_batch\<close>. What a consumer sees of one such generator, run to its end on the
  pass \<open>p\<close>:
\<close>

definition BaseDataLoader_iter :: "hook \<Rightarrow> pass \<Rightarrow> event list" where
  "BaseDataLoader_iter process p =
     map (\<lambda>batch. Yield (process batch)) (fst p) @
     [case snd p of None \<Rightarrow> IterEnd | Some x \<Rightarrow> Raise x]"

text \<open>
  What a consumer sees that pulls the passes 0 to \<open>k - 1\<close> directly, one generator after
  the other, each run to its end.
\<close>

definition direct_pull :: "hook \<Rightarrow> source \<Rightarrow> nat \<Rightarrow> event list" where
  "direct_pull process src k = concat (map (\<lambda>j. BaseDataLoader_iter process (src j)) [0..<k])"

fun gen_rest :: "hook \<Rightarrow> gen_pc option \<Rightarrow> event list" where
  "gen_rest process (Some (SyncLoop items out)) = BaseDataLoader_iter process (items, out)"
| "gen_rest process _ = []"

section \<open>Invariants\<close>

text \<open>
  While the event is not set, the objects put so far, those the worker has still to put
  for its current pass, and the later passes make up the stream of the source.
\<close>

definition worker_inv :: "source \<Rightarrow> loader \<Rightarrow> bool" where
  "worker_inv src s =
     (0 < async_loader_queue_size s \<and>
      (case async s of None \<Rightarrow> False
       | Some a \<Rightarrow> \<not> finished_event a \<and> (started a \<longleftrightarrow> thread a \<noteq> NotStarted) \<and>
           (\<forall>n. stream src 0 (calls s + n) =
                put_vals s @ pending (thread a) @
                (if last_pass (thread a) then [] else stream src (calls s) n))))"

text \<open>
  While nothing is drained, what the consumer has seen is what the generators make of the
  objects put so far, less those still in the queue.
\<close>

definition consumer_inv :: "hook \<Rightarrow> loader \<Rightarrow> bool" where
  "consumer_inv h s =
     (closing s = NotClosing \<and> gen s \<in> {None, Some AsyncLoop} \<and>
      (case async s of None \<Rightarrow> False
       | Some a \<Rightarrow> (gen s = Some AsyncLoop \<longrightarrow> started a) \<and>
           map (deliver h) (put_vals s) = seen s @ map (deliver h) (queue a)))"

definition pipe_inv :: "source \<Rightarrow> hook \<Rightarrow> loader \<Rightarrow> bool" where
  "pipe_inv src h s = (worker_inv src s \<and> consumer_inv h s)"

text \<open>
  In synchronous mode what was seen and what the live generator still holds are the
  passes called for.
\<close>

definition sync_inv :: "source \<Rightarrow> hook \<Rightarrow> loader \<Rightarrow> bool" where
  "sync_inv src h s =
     (async s = None \<and> async_loader_queue_size s \<le> 0 \<and> closing s = NotClosing \<and>
      gen s \<noteq> Some AsyncLoop \<and> ThreadStart \<notin> set (trace s) \<and> puts s = [] \<and>
      seen s @ gen_rest h (gen s) =
        concat (map (\<lambda>k. BaseDataLoader_iter h (src k)) [0..<calls s]))"



text \<open>
  Whatever the schedule, the objects put are those that have left the queue and those
  still in it.
\<close>

definition taken_inv :: "hook \<Rightarrow> loader \<Rightarrow> bool" where
  "taken_inv h s =
     (0 < async_loader_queue_size s \<and> gen s \<in> {None, Some AsyncLoop} \<and>
      (case async s of None \<Rightarrow> False
       | Some a \<Rightarrow> map (deliver h) (put_vals s) =
                     map (undiscard h) (taken s) @ map (deliver h) (queue a)))"

text \<open>
  A measure of what a run has done: every move of the worker or of a generator, and
  every start of a generator, raises it, and it is bounded by what the consumer has seen
  and what the queue holds. The queue never holds more than its size.
\<close>

fun effort :: "wpc \<Rightarrow> nat" where
  "effort (ForNext items out) = 1"
| "effort (PutBatch batch items out) = 2"
| "effort PutPassMarker = 2"
| "effort (PutExc e) = 2"
| "effort (PutFinalRaising b) = 2"
| "effort _ = 0"

definition progress :: "loader \<Rightarrow> nat" where
  "progress s =
     5 * length (seen s) +
     (case async s of None \<Rightarrow> 0 | Some a \<Rightarrow> 3 * length (queue a) + effort (thread a)) +
     (if gen s = None then 0 else 1)"

definition queue_fits :: "loader \<Rightarrow> bool" where
  "queue_fits s =
     (case async s of None \<Rightarrow> True
      | Some a \<Rightarrow> int (length (queue a)) \<le> async_loader_queue_size s)"



section \<open>Example sources\<close>

text \<open>
  Every pass yields three ordinary batches; a first batch and then a failing disk; a pass
  with \<^verbatim>\<open>None\<close> among its batches; a pass with an exception object among its batches; a
  source that fails at once.
\<close>

definition abc_source :: source where
  "abc_source k = ([PyData 1, PyData 2, PyData 3], None)"

definition disk_error_source :: source where
  "disk_error_source k = ([PyData 1], Some (Exc ''disk error''))"




definition none_then_fault_source :: source where
  "none_then_fault_source k = ([PyNone], Some (Exc ''disk error''))"

definition exc_then_fault_source :: source where
  "exc_then_fault_source k = ([PyExc ''stored''], Some (Exc ''disk error''))"


definition two_none_source :: source where
  "two_none_source k = ([PyData 1, PyNone, PyData 2, PyNone, PyData 3], None)"

definition exc_before_none_source :: source where
  "exc_before_none_source k = ([PyExc ''stored'', PyNone, PyData 3], None)"

definition mixed_source :: source where
  "mixed_source k = ([PyData 1, PyNone, PyExc ''stored''], Some (Exc ''disk error''))"

definition late_exc_source :: source where
  "late_exc_source k = ([PyNone, PyData 1, PyExc ''stored'', PyData 2], None)"


section \<open>Basic facts about runs\<close>

lemmas step_defs = async_worker_def put_def goto_def iter_start_def iter_next_def iter_drop_def
  close_call_def close_step_def

lemma run_append:
  "run src h (xs @ ys) s =
     (case run src h xs s of None \<Rightarrow> None | Some s' \<Rightarrow> run src h ys s')"
  by (induction xs arbitrary: s) (auto split: option.splits)

lemma run_snoc:
  "run src h (xs @ [a]) s = Some s' \<longleftrightarrow>
     (\<exists>s1. run src h xs s = Some s1 \<and> step src h a s1 = Some s')"
  by (auto simp: run_append split: option.splits)

lemma run_invariant:
  assumes "run src h sch s = Some s'" and "P s"
    and "\<And>a t t'. P t \<Longrightarrow> step src h a t = Some t' \<Longrightarrow> P t'"
  shows "P s'"
  using assms(1,2)
proof (induction sch arbitrary: s)
  case Nil
  then show ?case by simp
next
  case (Cons a as)
  then show ?case using assms(3) by (auto split: option.splits)
qed

lemma step_size:
  "step src h a s = Some s' \<Longrightarrow> async_loader_queue_size s' = async_loader_queue_size s"
  by (cases a)
     (auto simp: step_defs split: option.splits wpc.splits list.splits if_splits prod.splits
        gen_pc.splits close_pc.splits exc.splits)

lemma run_size:
  "run src h sch s = Some s' \<Longrightarrow> async_loader_queue_size s' = async_loader_queue_size s"
  by (induction sch arbitrary: s) (auto split: option.splits dest: step_size)

section \<open>Construction with a size that is not positive\<close>

text \<open>
  No step looks at the size except to compare it with 0 or with the length of the queue,
  so two loaders that differ only in a size that is not positive run alike.
\<close>

lemma sync_step_resize:
  assumes "async_loader_queue_size s \<le> 0" and "m \<le> 0"
  shows "step src h a (s\<lparr>async_loader_queue_size := m\<rparr>) =
         map_option (\<lambda>u. u\<lparr>async_loader_queue_size := m\<rparr>) (step src h a s)"
  using assms
  by (cases a)
     (auto simp: step_defs split: option.splits wpc.splits list.splits prod.splits
        gen_pc.splits close_pc.splits exc.splits)

lemma sync_run_resize:
  assumes "async_loader_queue_size s \<le> 0" and "m \<le> 0"
  shows "run src h sch (s\<lparr>async_loader_queue_size := m\<rparr>) =
         map_option (\<lambda>u. u\<lparr>async_loader_queue_size := m\<rparr>) (run src h sch s)"
  using assms(1)
proof (induction sch arbitrary: s)
  case Nil
  then show ?case by simp
next
  case (Cons a as)
  show ?case
  proof (cases "step src h a s")
    case None
    then show ?thesis using sync_step_resize[OF Cons.prems assms(2), of src h a] by simp
  next
    case (Some t)
    then have "async_loader_queue_size t \<le> 0" using Cons.prems by (simp add: step_size)
    then show ?thesis
      using Some sync_step_resize[OF Cons.prems assms(2), of src h a] Cons.IH[of t] by simp
  qed
qed

text \<open>
  Claim C5, as the code has it. The claim says that a negative queue size makes
  construction fail with a configuration error. \<^verbatim>\<open>__init__\<close> validates nothing: for every
  negative size construction succeeds, none of event, queue, thread and flag is created,
  and every schedule gives the trace that it gives on a loader of size 0, which is the
  synchronous mode.
\<close>

theorem negative_size_is_synchronous:
  assumes "n < 0"
  shows "construct n = Inr (init n) \<and> async (init n) = None \<and>
         map_option trace (run src process sch (init n)) =
         map_option trace (run src process sch (init 0))"
proof -
  have "init n = (init 0)\<lparr>async_loader_queue_size := n\<rparr>"
    using assms by (simp add: init_def)
  moreover have "async_loader_queue_size (init 0) \<le> 0" by (simp add: init_def)
  ultimately have "run src process sch (init n) =
      map_option (\<lambda>u. u\<lparr>async_loader_queue_size := n\<rparr>) (run src process sch (init 0))"
    using sync_run_resize[of "init 0" n src process sch] assms by simp
  then show ?thesis using assms by (simp add: construct_def init_def option.map_comp comp_def)
qed

theorem negative_size_is_synchronous_witness:
  "(- 1 :: int) < 0 \<and> construct (- 1) = Inr (init (- 1)) \<and> async (init (- 1)) = None \<and>
   map_option trace (run abc_source process_batch [CallIter, Next, Next] (init (- 1))) =
     Some [Yield (PyData 1), Yield (PyData 2)]"
proof -
  have "map_option trace (run abc_source process_batch [CallIter, Next, Next] (init 0)) =
     Some [Yield (PyData 1), Yield (PyData 2)]"
    by code_simp
  then show ?thesis
    using negative_size_is_synchronous[of "- 1" abc_source process_batch "[CallIter, Next, Next]"]
    by simp
qed

text \<open>
  Claim C5 as stated fails at size \<open>-1\<close>: construction does not end in the configuration
  error, and the loader it gives iterates the source synchronously.
\<close>

theorem negative_size_constructs:
  "construct (- 1) \<noteq> Inl ConfigurationError \<and>
   map_option (\<lambda>s. (async s, trace s))
     (run abc_source process_batch [CallIter, Next, Next, Next, Next] (init (- 1))) =
     Some (None, [Yield (PyData 1), Yield (PyData 2), Yield (PyData 3), IterEnd])"
  by (simp add: construct_def step_defs init_def abc_source_def process_batch_def)

section \<open>The start-once flag\<close>

lemma started_iff:
  assumes "0 < n" and "run src h sch (init n) = Some s"
  shows "\<exists>a. async s = Some a \<and> started a = (CallIter \<in> set sch) \<and>
     count_list (trace s) ThreadStart = (if CallIter \<in> set sch then 1 else 0)"
  using assms(2)
proof (induction sch arbitrary: s rule: rev_induct)
  case Nil
  then show ?case using assms(1) by (auto simp: init_def)
next
  case (snoc x xs)
  then obtain s1 where r: "run src h xs (init n) = Some s1" and st: "step src h x s1 = Some s"
    by (auto simp: run_snoc)
  from snoc.IH[OF r] obtain a where a: "async s1 = Some a" "started a = (CallIter \<in> set xs)"
     "count_list (trace s1) ThreadStart = (if CallIter \<in> set xs then 1 else 0)" by blast
  have n: "async_loader_queue_size s1 = n" using run_size[OF r] by (simp add: init_def)
  show ?case
  proof (cases x)
    case Worker
    then show ?thesis using st a
      by (auto simp: step_defs
            split: wpc.splits if_splits list.splits option.splits prod.splits exc.splits)
  next
    case CallIter
    then show ?thesis using st a n assms(1) by (auto simp: step_defs split: if_splits)
  next
    case Next
    then show ?thesis using st a
      by (auto simp: step_defs deliver_def
            split: if_splits list.splits option.splits gen_pc.splits pyval.splits)
  next
    case Drop
    then show ?thesis using st a by (auto simp: step_defs split: if_splits)
  next
    case CallClose
    then show ?thesis using st a by (auto simp: step_defs split: if_splits)
  next
    case CloseStep
    then show ?thesis using st a
      by (auto simp: step_defs split: if_splits list.splits close_pc.splits)
  qed
qed

text \<open>
  Claim C8. On a loader of positive size, after any schedule whatever, the flag
  \<^verbatim>\<open>started\<close> is true exactly when the schedule holds an iteration request, and the
  thread has been started once in that case and never otherwise. So the flag is false at
  first (the empty schedule), the first request sets it and starts the thread, and no
  later move, however many requests follow, resets it or starts the thread again.
\<close>

theorem started_once:
  assumes "0 < n" and "run src process sch (init n) = Some s"
  shows "map_option started (async s) = Some (CallIter \<in> set sch) \<and>
         count_list (trace s) ThreadStart = (if CallIter \<in> set sch then 1 else 0)"
  using started_iff[OF assms] by auto

theorem started_once_witness:
  "\<exists>s. run abc_source process_batch
          [CallIter, Worker, Worker, Worker, Next, Drop, CallIter, Drop, CallIter] (init 2) = Some s \<and>
       map_option started (async s) = Some True \<and> count_list (trace s) ThreadStart = 1"
proof -
  have "run abc_source process_batch
          [CallIter, Worker, Worker, Worker, Next, Drop, CallIter, Drop, CallIter] (init 2) \<noteq> None"
    by code_simp
  then obtain s where r: "run abc_source process_batch
          [CallIter, Worker, Worker, Worker, Next, Drop, CallIter, Drop, CallIter] (init 2) = Some s"
    by auto
  have "(0::int) < 2" by simp
  from started_once[OF this r] r show ?thesis by simp
qed

section \<open>The worker follows the stream\<close>

lemma stream_one [simp]: "stream src k (Suc 0) = pass_out (src k)"
  by simp

lemma pass_out_Cons [simp]: "pass_out (b # items, out) = b # pass_out (items, out)"
  by (cases "(items, out)" rule: pass_out.cases) auto

lemma worker_inv_init: "0 < n \<Longrightarrow> worker_inv src (init n)"
  by (simp add: worker_inv_def init_def put_vals_def puts_def)

lemma worker_inv_step:
  assumes "worker_inv src s" and "step src h a s = Some s'" and "a \<noteq> CallClose"
  shows "worker_inv src s'"
proof (cases a)
  case Worker
  from assms(1) obtain b where b: "async s = Some b" "0 < async_loader_queue_size s" "\<not> finished_event b"
     "started b \<longleftrightarrow> thread b \<noteq> NotStarted"
    and st: "\<And>n. stream src 0 (calls s + n) =
                put_vals s @ pending (thread b) @
                (if last_pass (thread b) then [] else stream src (calls s) n)"
    by (auto simp: worker_inv_def split: option.splits)
  show ?thesis
  proof (cases "thread b")
    case LoopHead
    obtain items out where p: "src (calls s) = (items, out)" by (cases "src (calls s)")
    have "\<And>n. stream src 0 (Suc (calls s) + n) = put_vals s @ pass_out (items, out) @ (if out \<noteq> None then [] else stream src (Suc (calls s)) n)"
      using st[of "Suc _"] LoopHead p by simp
    then show ?thesis using assms(2) Worker b LoopHead p
      by (auto simp: worker_inv_def step_defs put_vals_def puts_def)
  next
    case (ForNext items out)
    then show ?thesis using assms(2) Worker b st
      by (cases items; cases out)
         (auto simp: worker_inv_def step_defs put_vals_def puts_def split: exc.splits)
  next
    case (PutBatch x31 x32 x33)
    then show ?thesis using assms(2) Worker b st
      by (auto simp: worker_inv_def step_defs put_vals_def puts_def split: if_splits)
  next
    case PutPassMarker
    then show ?thesis using assms(2) Worker b st
      by (auto simp: worker_inv_def step_defs put_vals_def puts_def split: if_splits)
  next
    case (PutExc x5)
    then show ?thesis using assms(2) Worker b st
      by (auto simp: worker_inv_def step_defs put_vals_def puts_def split: if_splits)
  next
    case PutExcMarker
    then show ?thesis using assms(2) Worker b st
      by (auto simp: worker_inv_def step_defs put_vals_def puts_def split: if_splits)
  next
    case PutFinalMarker
    then show ?thesis using assms(2) Worker b st
      by (auto simp: worker_inv_def step_defs put_vals_def puts_def split: if_splits)
  next
    case (PutFinalRaising x)
    then show ?thesis using assms(2) Worker b st
      by (auto simp: worker_inv_def step_defs put_vals_def puts_def split: if_splits)
  qed (use assms(2) Worker b in \<open>auto simp: step_defs\<close>)
next
  case CallIter
  then show ?thesis using assms
    by (auto simp: worker_inv_def step_defs put_vals_def puts_def split: option.splits if_splits)
next
  case Next
  then show ?thesis using assms
    by (auto simp: worker_inv_def step_defs put_vals_def puts_def deliver_def split: option.splits if_splits gen_pc.splits list.splits pyval.splits)
next
  case Drop
  then show ?thesis using assms
    by (auto simp: worker_inv_def step_defs put_vals_def puts_def split: option.splits if_splits)
next
  case CallClose
  then show ?thesis using assms by simp
next
  case CloseStep
  then show ?thesis using assms
    by (auto simp: worker_inv_def step_defs put_vals_def puts_def split: option.splits if_splits close_pc.splits list.splits)
qed

section \<open>The consumer sees the queue in order\<close>

lemma consumer_inv_init: "0 < n \<Longrightarrow> consumer_inv h (init n)"
  by (simp add: consumer_inv_def init_def put_vals_def puts_def seen_def)

lemma is_seen_deliver [simp]: "is_seen (deliver h v)"
  by (cases v) (auto simp: deliver_def)

lemma is_put_deliver [simp]: "\<not> is_put (deliver h v)"
  by (cases v) (auto simp: deliver_def)

lemma consumer_inv_step:
  assumes "consumer_inv h s" and "0 < async_loader_queue_size s"
    and "step src h a s = Some s'" and "a \<noteq> CallClose"
  shows "consumer_inv h s'"
proof (cases a)
  case Worker
  then show ?thesis using assms
    by (auto simp: consumer_inv_def step_defs put_vals_def puts_def seen_def
          split: option.splits wpc.splits list.splits if_splits prod.splits exc.splits)
next
  case CallIter
  then show ?thesis using assms
    by (auto simp: consumer_inv_def step_defs put_vals_def puts_def seen_def split: option.splits if_splits)
next
  case Next
  then show ?thesis using assms
    by (auto simp: consumer_inv_def step_defs put_vals_def puts_def seen_def
          split: option.splits if_splits list.splits)
next
  case Drop
  then show ?thesis using assms
    by (auto simp: consumer_inv_def step_defs put_vals_def puts_def seen_def split: option.splits if_splits)
next
  case CallClose
  then show ?thesis using assms by simp
next
  case CloseStep
  then show ?thesis using assms
    by (auto simp: consumer_inv_def step_defs split: option.splits)
qed

lemma pipe_inv_step:
  "pipe_inv src h s \<Longrightarrow> step src h a s = Some s' \<Longrightarrow> a \<noteq> CallClose \<Longrightarrow> pipe_inv src h s'"
  unfolding pipe_inv_def
  using worker_inv_step[of src s h a s'] consumer_inv_step[of h s src a s']
  by (auto simp: worker_inv_def)

lemma pipe_inv_run:
  "pipe_inv src h s \<Longrightarrow> run src h sch s = Some s' \<Longrightarrow> CallClose \<notin> set sch \<Longrightarrow> pipe_inv src h s'"
proof (induction sch arbitrary: s)
  case Nil
  then show ?case by simp
next
  case (Cons a as)
  then show ?case by (auto split: option.splits dest: pipe_inv_step)
qed

lemma pipe_inv_reach:
  "0 < n \<Longrightarrow> run src h sch (init n) = Some s \<Longrightarrow> CallClose \<notin> set sch \<Longrightarrow> pipe_inv src h s"
  using pipe_inv_run[of src h "init n" sch s]
  by (simp add: pipe_inv_def worker_inv_init consumer_inv_init)

lemma pipe_inv_seen:
  assumes "pipe_inv src h s"
  shows "\<exists>a. async s = Some a \<and> (\<forall>n. map (deliver h) (stream src 0 (calls s + n)) =
     seen s @ map (deliver h) (queue a @ pending (thread a) @
                (if last_pass (thread a) then [] else stream src (calls s) n)))"
proof -
  from assms obtain a where a: "async s = Some a"
    and w: "\<And>n. stream src 0 (calls s + n) =
                put_vals s @ pending (thread a) @
                (if last_pass (thread a) then [] else stream src (calls s) n)"
    and c: "map (deliver h) (put_vals s) = seen s @ map (deliver h) (queue a)"
    by (auto simp: pipe_inv_def worker_inv_def consumer_inv_def split: option.splits)
  show ?thesis using a c by (simp add: w)
qed

lemma stream_add:
  "\<forall>j<a. snd (src (k + j)) = None \<Longrightarrow>
   stream src k (a + b) = stream src k a @ stream src (k + a) b"
proof (induction a arbitrary: k)
  case 0
  then show ?case by simp
next
  case (Suc a)
  from Suc.prems have 0: "snd (src k) = None" by (metis add_0_right zero_less_Suc)
  from Suc.prems have "\<forall>j<a. snd (src (Suc k + j)) = None"
    by (metis Suc_less_eq add_Suc_right add_Suc)
  from Suc.IH[OF this] 0 show ?case by simp
qed

lemma stream_prefix_add: "prefix (stream src k a) (stream src k (a + b))"
proof (induction a arbitrary: k)
  case 0
  then show ?case by simp
next
  case (Suc a)
  then show ?case by (cases "snd (src k)") auto
qed

lemma stream_prefix: "a \<le> b \<Longrightarrow> prefix (stream src k a) (stream src k b)"
  using stream_prefix_add[of src k a "b - a"] by simp

lemma split_iter_seen: "split_iter acc (filter is_seen es) = split_iter acc es"
proof (induction es arbitrary: acc)
  case Nil
  then show ?case by simp
next
  case (Cons e es)
  then show ?case by (cases e) auto
qed

lemma iterations_seen: "iterations s = split_iter [] (seen s)"
  by (simp add: iterations_def seen_def split_iter_seen)

lemma split_iter_append: "prefix (split_iter acc es) (split_iter acc (es @ es'))"
proof (induction es arbitrary: acc)
  case Nil
  then show ?case by simp
next
  case (Cons e es)
  then show ?case by (cases e) auto
qed

lemma split_iter_prefix: "prefix es es' \<Longrightarrow> prefix (split_iter acc es) (split_iter acc es')"
  by (elim prefixE) (simp add: split_iter_append)

lemma split_iter_ordinary:
  "list_all ordinary pre \<Longrightarrow>
   split_iter acc (map (deliver h) pre @ es) = split_iter (acc @ map h pre) es"
proof (induction pre arbitrary: acc)
  case Nil
  then show ?case by simp
next
  case (Cons b pre)
  then show ?case by (cases b) (auto simp: deliver_def)
qed

lemma split_iter_stop:
  assumes "list_all ordinary pre" and "\<not> ordinary t"
  shows "split_iter acc (map (deliver h) (pre @ t # rest)) =
         (acc @ map h pre, ending t) # split_iter [] (map (deliver h) rest)"
  using assms(2) split_iter_ordinary[OF assms(1), of acc h "map (deliver h) (t # rest)"]
  by (cases t) (auto simp: deliver_def)

lemma split_iter_clean_stream:
  assumes "\<forall>j<m. clean_pass (src (k + j))"
  shows "split_iter [] (map (deliver h) (stream src k (m + r))) =
         map (\<lambda>j. (map h (fst (src j)), None)) [k..<k + m] @
         split_iter [] (map (deliver h) (stream src (k + m) r))"
  using assms
proof (induction m arbitrary: k)
  case 0
  then show ?case by simp
next
  case (Suc m)
  obtain items out where p: "src k = (items, out)" by (cases "src k")
  from Suc.prems[rule_format, of 0] p have c: "list_all ordinary items" "out = None"
    by (auto simp: clean_pass_def)
  have "\<forall>j<m. clean_pass (src (Suc k + j))" using Suc.prems by auto
  from Suc.IH[OF this] have ih: "split_iter [] (map (deliver h) (stream src (Suc k) (m + r))) =
    map (\<lambda>j. (map h (fst (src j)), None)) [Suc k..<Suc k + m] @
    split_iter [] (map (deliver h) (stream src (Suc k + m) r))" .
  have "split_iter [] (map (deliver h) (stream src k (Suc m + r))) =
        split_iter [] (map (deliver h) (items @ PyNone # stream src (Suc k) (m + r)))"
    using p c by simp
  also have "\<dots> = ([] @ map h items, None) # split_iter [] (map (deliver h) (stream src (Suc k) (m + r)))"
    using split_iter_stop[OF c(1), of PyNone "[]" h] by simp
  finally have "split_iter [] (map (deliver h) (stream src k (Suc m + r))) =
     (map h (fst (src k)), None) # map (\<lambda>j. (map h (fst (src j)), None)) [Suc k..<Suc k + m] @
    split_iter [] (map (deliver h) (stream src (Suc k + m) r))"
    using ih p by simp
  moreover have "[k..<k + Suc m] = k # [Suc k..<Suc k + m]"
    using upt_conv_Cons[of k "k + Suc m"] by simp
  ultimately show ?case by (simp del: upt_Suc)
qed

lemma seen_prefix_stream:
  assumes "pipe_inv src h s" and "calls s \<le> N"
  shows "prefix (seen s) (map (deliver h) (stream src 0 N))"
proof -
  from pipe_inv_seen[OF assms(1)] obtain a where a: "async s = Some a \<and>
    (\<forall>n. map (deliver h) (stream src 0 (calls s + n)) =
     seen s @ map (deliver h) (queue a @ pending (thread a) @
                (if last_pass (thread a) then [] else stream src (calls s) n)))" by blast
  from a[THEN conjunct2, rule_format, of "N - calls s"] assms(2) show ?thesis
    by (auto simp: prefix_def)
qed

lemma iterations_prefix_stream:
  assumes "pipe_inv src h s" and "calls s \<le> N"
  shows "prefix (iterations s) (split_iter [] (map (deliver h) (stream src 0 N)))"
  using split_iter_prefix[OF seen_prefix_stream[OF assms]] by (simp add: iterations_seen)


section \<open>The consumer can always be served\<close>

lemma worker_keeps:
  "async_worker src s = Some s' \<Longrightarrow> gen s' = gen s \<and> seen s' = seen s \<and> closing s' = closing s"
  by (auto simp: step_defs seen_def
        split: option.splits wpc.splits list.splits if_splits prod.splits exc.splits)

lemma workers_keep:
  "run src h (replicate k Worker) s = Some s' \<Longrightarrow>
     gen s' = gen s \<and> seen s' = seen s \<and> closing s' = closing s"
proof (induction k arbitrary: s)
  case 0
  then show ?case by simp
next
  case (Suc k)
  then show ?case by (auto split: option.splits dest: worker_keeps)
qed

lemma worker_reaches_put:
  assumes "async s = Some a" and "queue a = []" and "0 < async_loader_queue_size s"
    and "\<not> finished_event a" and "thread a \<noteq> NotStarted" and "thread a \<noteq> Exited"
  shows "\<exists>k s' a'. run src h (replicate k Worker) s = Some s' \<and> async s' = Some a' \<and> queue a' \<noteq> []"
proof -
  have one: "\<exists>s' a'. run src h (replicate 1 Worker) t = Some s' \<and> async s' = Some a' \<and> queue a' \<noteq> []"
    if "async t = Some b" "queue b = []" "0 < async_loader_queue_size t"
       "thread b \<in> {PutPassMarker, PutExcMarker, PutFinalMarker} \<or> (\<exists>e. thread b = PutExc e)
        \<or> (\<exists>e. thread b = PutFinalRaising e)
        \<or> (\<exists>x r out. thread b = PutBatch x r out)" for t b
    using that by (auto simp: step_defs)
  have two: "\<exists>s' a'. run src h (replicate 2 Worker) t = Some s' \<and> async s' = Some a' \<and> queue a' \<noteq> []"
    if "async t = Some b" "queue b = []" "0 < async_loader_queue_size t" "\<not> finished_event b"
       "thread b = ForNext items out" for t b items out
    using that by (cases items; cases out) (auto simp: step_defs numeral_2_eq_2 split: exc.splits)
  show ?thesis
  proof (cases "thread a")
    case LoopHead
    obtain items out where p: "src (calls s) = (items, out)" by (cases "src (calls s)")
    have "\<exists>s' a'. run src h (replicate 3 Worker) s = Some s' \<and> async s' = Some a' \<and> queue a' \<noteq> []"
      using assms LoopHead p
      by (cases items; cases out) (auto simp: step_defs numeral_3_eq_3 split: exc.splits)
    then show ?thesis by blast
  next
    case (ForNext items out)
    from two[OF assms(1,2,3,4) this] show ?thesis by blast
  next
    case (PutBatch x r out)
    with one[OF assms(1,2,3)] show ?thesis by blast
  next
    case PutPassMarker
    with one[OF assms(1,2,3)] show ?thesis by blast
  next
    case (PutExc e)
    with one[OF assms(1,2,3)] show ?thesis by blast
  next
    case PutExcMarker
    with one[OF assms(1,2,3)] show ?thesis by blast
  next
    case PutFinalMarker
    with one[OF assms(1,2,3)] show ?thesis by blast
  next
    case (PutFinalRaising e)
    with one[OF assms(1,2,3)] show ?thesis by blast
  qed (use assms in auto)
qed

lemma plain_simps [simp]:
  "plain []" "plain (replicate k Worker)" "plain [CallIter]" "plain [Next]"
  "plain (xs @ ys) = (plain xs \<and> plain ys)"
  by (auto simp: plain_def)

lemma ensure_live:
  assumes "pipe_inv src h s"
  shows "\<exists>sch s1. plain sch \<and> run src h sch s = Some s1 \<and> gen s1 = Some AsyncLoop \<and>
           seen s1 = seen s \<and> pipe_inv src h s1"
proof (cases "gen s")
  case None
  from assms obtain a where a: "async s = Some a" "0 < async_loader_queue_size s" "closing s = NotClosing"
    by (auto simp: pipe_inv_def worker_inv_def consumer_inv_def split: option.splits)
  then obtain s1 where s1: "step src h CallIter s = Some s1" "gen s1 = Some AsyncLoop" "seen s1 = seen s"
    using None by (cases "started a") (auto simp: step_defs seen_def)
  from pipe_inv_step[OF assms s1(1)] have "pipe_inv src h s1" by simp
  with s1 have "plain [CallIter] \<and> run src h [CallIter] s = Some s1 \<and> gen s1 = Some AsyncLoop \<and>
           seen s1 = seen s \<and> pipe_inv src h s1" by simp
  then show ?thesis by blast
next
  case (Some g)
  with assms have "gen s = Some AsyncLoop" by (auto simp: pipe_inv_def consumer_inv_def)
  with assms have "plain [] \<and> run src h [] s = Some s \<and> gen s = Some AsyncLoop \<and>
           seen s = seen s \<and> pipe_inv src h s" by simp
  then show ?thesis by blast
qed

lemma fill_queue:
  assumes inv: "pipe_inv src h s" and live: "gen s = Some AsyncLoop"
    and more: "length (seen s) < length (stream src 0 N)"
  shows "\<exists>k s2 a2. run src h (replicate k Worker) s = Some s2 \<and> async s2 = Some a2 \<and>
           queue a2 \<noteq> [] \<and> gen s2 = Some AsyncLoop \<and> seen s2 = seen s \<and> pipe_inv src h s2"
proof -
  from inv obtain a where a: "async s = Some a" "0 < async_loader_queue_size s"
      "\<not> finished_event a" "started a \<longleftrightarrow> thread a \<noteq> NotStarted" "gen s = Some AsyncLoop \<longrightarrow> started a"
    by (auto simp: pipe_inv_def worker_inv_def consumer_inv_def split: option.splits)
  show ?thesis
  proof (cases "queue a = []")
    case False
    with a inv live have "run src h (replicate 0 Worker) s = Some s \<and> async s = Some a \<and>
           queue a \<noteq> [] \<and> gen s = Some AsyncLoop \<and> seen s = seen s \<and> pipe_inv src h s" by simp
    then show ?thesis by blast
  next
    case True
    have ns: "thread a \<noteq> NotStarted" using a live by simp
    have ne: "thread a \<noteq> Exited"
    proof
      assume ex: "thread a = Exited"
      from pipe_inv_seen[OF inv] a(1) have
        "map (deliver h) (stream src 0 (calls s + N)) = seen s @ map (deliver h) (queue a @ pending (thread a) @
                (if last_pass (thread a) then [] else stream src (calls s) N))" by auto
      with ex True have "map (deliver h) (stream src 0 (calls s + N)) = seen s" by simp
      then have "length (stream src 0 (calls s + N)) = length (seen s)"
        by (metis length_map)
      moreover have "length (stream src 0 N) \<le> length (stream src 0 (calls s + N))"
        using stream_prefix[of N "calls s + N" src 0] by (simp add: prefix_length_le)
      ultimately show False using more by simp
    qed
    from worker_reaches_put[OF a(1) True a(2,3) ns ne] obtain k s2 a2 where
      r: "run src h (replicate k Worker) s = Some s2" "async s2 = Some a2" "queue a2 \<noteq> []" by blast
    have "pipe_inv src h s2" using pipe_inv_run[OF inv r(1)] by simp
    with r workers_keep[OF r(1)] live show ?thesis by auto
  qed
qed

lemma take_one:
  assumes inv: "pipe_inv src h s" and live: "gen s = Some AsyncLoop"
    and "async s = Some a" and "queue a \<noteq> []"
  shows "\<exists>s3. step src h Next s = Some s3 \<and> length (seen s3) = Suc (length (seen s)) \<and> pipe_inv src h s3"
proof -
  from inv have "closing s = NotClosing" by (auto simp: pipe_inv_def consumer_inv_def)
  with assms obtain s3 where s3: "step src h Next s = Some s3" "length (seen s3) = Suc (length (seen s))"
    by (cases "queue a") (auto simp: step_defs seen_def)
  with pipe_inv_step[OF inv s3(1)] show ?thesis by auto
qed

lemma can_advance:
  assumes inv: "pipe_inv src h s" and more: "length (seen s) < length (stream src 0 N)"
  shows "\<exists>sch s'. plain sch \<and> run src h sch s = Some s' \<and>
           length (seen s') = Suc (length (seen s)) \<and> pipe_inv src h s'"
proof -
  from ensure_live[OF inv] obtain sch1 s1 where 1: "plain sch1" "run src h sch1 s = Some s1"
    "gen s1 = Some AsyncLoop" "seen s1 = seen s" "pipe_inv src h s1" by blast
  from fill_queue[OF 1(5,3), of N] more 1(4) obtain k s2 a2 where
    2: "run src h (replicate k Worker) s1 = Some s2" "async s2 = Some a2"
       "queue a2 \<noteq> []" "gen s2 = Some AsyncLoop" "seen s2 = seen s1" "pipe_inv src h s2" by auto
  from take_one[OF 2(6,4,2,3)] obtain s3 where
    3: "step src h Next s2 = Some s3" "length (seen s3) = Suc (length (seen s2))" "pipe_inv src h s3"
    by blast
  have "run src h (sch1 @ replicate k Worker @ [Next]) s = Some s3"
    using 1(2) 2(1) 3(1) by (simp add: run_append)
  moreover have "plain (sch1 @ replicate k Worker @ [Next])" using 1(1) by simp
  ultimately show ?thesis using 3 2(5) 1(4) by metis
qed

lemma can_reach:
  assumes "pipe_inv src h s" and "length (seen s) \<le> L" and "L \<le> length (stream src 0 N)"
  shows "\<exists>sch s'. plain sch \<and> run src h sch s = Some s' \<and> length (seen s') = L \<and> pipe_inv src h s'"
  using assms
proof (induction "L - length (seen s)" arbitrary: s)
  case 0
  then have "plain [] \<and> run src h [] s = Some s \<and> length (seen s) = L \<and> pipe_inv src h s" by simp
  then show ?case by blast
next
  case (Suc d)
  then have "length (seen s) < length (stream src 0 N)" by simp
  from can_advance[OF Suc.prems(1) this] obtain sch1 s1 where
    1: "plain sch1" "run src h sch1 s = Some s1" "length (seen s1) = Suc (length (seen s))"
       "pipe_inv src h s1" by blast
  have "d = L - length (seen s1)" "length (seen s1) \<le> L" using Suc.hyps(2) 1(3) by simp_all
  from Suc.hyps(1)[OF this(1) 1(4) this(2) Suc.prems(3)] obtain sch2 s2 where
    2: "plain sch2" "run src h sch2 s1 = Some s2" "length (seen s2) = L" "pipe_inv src h s2" by blast
  have "plain (sch1 @ sch2) \<and> run src h (sch1 @ sch2) s = Some s2 \<and> length (seen s2) = L \<and> pipe_inv src h s2"
    using 1 2 by (simp add: run_append)
  then show ?case by blast
qed

lemma can_see_stream:
  assumes "pipe_inv src h s"
  shows "\<exists>sch s'. plain sch \<and> run src h sch s = Some s' \<and> pipe_inv src h s' \<and>
           prefix (map (deliver h) (stream src 0 N)) (seen s')"
proof (cases "length (seen s) \<le> length (stream src 0 N)")
  case True
  from can_reach[OF assms True order_refl] obtain sch s' where
    1: "plain sch" "run src h sch s = Some s'" "length (seen s') = length (stream src 0 N)"
       "pipe_inv src h s'" by blast
  have "prefix (seen s') (map (deliver h) (stream src 0 (N + calls s')))"
    using seen_prefix_stream[OF 1(4)] by simp
  moreover have "prefix (map (deliver h) (stream src 0 N)) (map (deliver h) (stream src 0 (N + calls s')))"
    using stream_prefix_add[of src 0 N "calls s'"] by (simp add: map_mono_prefix)
  ultimately have "seen s' = map (deliver h) (stream src 0 N)"
    using 1(3) by (metis length_map order_refl prefix_length_prefix prefix_order.antisym)
  with 1 show ?thesis by auto
next
  case False
  have "prefix (seen s) (map (deliver h) (stream src 0 (N + calls s)))"
    using seen_prefix_stream[OF assms] by simp
  moreover have "prefix (map (deliver h) (stream src 0 N)) (map (deliver h) (stream src 0 (N + calls s)))"
    using stream_prefix_add[of src 0 N "calls s"] by (simp add: map_mono_prefix)
  ultimately have "prefix (map (deliver h) (stream src 0 N)) (seen s)"
    using False by (metis length_map nat_le_linear prefix_length_prefix)
  with assms have "plain [] \<and> run src h [] s = Some s \<and> pipe_inv src h s \<and>
           prefix (map (deliver h) (stream src 0 N)) (seen s)" by simp
  then show ?thesis by blast
qed

section \<open>Synchronous mode\<close>

lemma sync_inv_init: "n \<le> 0 \<Longrightarrow> sync_inv src h (init n)"
  by (simp add: sync_inv_def init_def puts_def seen_def)

lemma sync_inv_step:
  assumes "sync_inv src h s" and "step src h a s = Some s'" and "a \<noteq> Drop"
  shows "sync_inv src h s' \<and> a \<noteq> Worker \<and> a \<noteq> CloseStep"
proof (cases a)
  case Worker
  then show ?thesis using assms by (auto simp: sync_inv_def step_defs)
next
  case CallIter
  then show ?thesis using assms
    by (auto simp: sync_inv_def step_defs puts_def seen_def BaseDataLoader_iter_def
          split: prod.splits if_splits)
next
  case Next
  then show ?thesis using assms
    by (auto simp: sync_inv_def step_defs puts_def seen_def BaseDataLoader_iter_def
          split: option.splits gen_pc.splits list.splits if_splits)
next
  case Drop
  then show ?thesis using assms by simp
next
  case CallClose
  then show ?thesis using assms
    by (auto simp: sync_inv_def step_defs puts_def seen_def split: if_splits)
next
  case CloseStep
  then show ?thesis using assms by (auto simp: sync_inv_def step_defs)
qed

lemma sync_inv_run:
  "sync_inv src h s \<Longrightarrow> run src h sch s = Some s' \<Longrightarrow> Drop \<notin> set sch \<Longrightarrow>
     sync_inv src h s' \<and> Worker \<notin> set sch \<and> CloseStep \<notin> set sch"
proof (induction sch arbitrary: s)
  case Nil
  then show ?case by simp
next
  case (Cons a as)
  from Cons.prems obtain t where t: "step src h a s = Some t" "run src h as t = Some s'"
    by (auto split: option.splits)
  from sync_inv_step[OF Cons.prems(1) t(1)] Cons.prems(3)
  have "sync_inv src h t" "a \<noteq> Worker" "a \<noteq> CloseStep" by auto
  with Cons.IH[OF this(1) t(2)] Cons.prems(3) show ?case by auto
qed

lemma sync_next_enabled:
  "sync_inv src h s \<Longrightarrow> gen s \<noteq> None \<Longrightarrow> iter_next h s \<noteq> None"
  by (auto simp: sync_inv_def iter_next_def split: gen_pc.splits list.splits)

lemma split_iter_base:
  "split_iter acc (BaseDataLoader_iter h (items, out) @ es) =
     (acc @ map h items, out) # split_iter [] es"
proof (induction items arbitrary: acc)
  case Nil
  then show ?case by (cases out) (auto simp: BaseDataLoader_iter_def)
next
  case (Cons b items)
  then show ?case by (simp add: BaseDataLoader_iter_def)
qed

lemma split_iter_base_concat:
  "split_iter [] (concat (map (\<lambda>k. BaseDataLoader_iter h (src k)) ks)) =
     map (\<lambda>k. (map h (fst (src k)), snd (src k))) ks"
proof (induction ks)
  case Nil
  then show ?case by simp
next
  case (Cons k ks)
  then show ?case using split_iter_base[of "[]" h "fst (src k)" "snd (src k)"] by simp
qed

lemma sync_nth_iteration:
  assumes "sync_inv src h s" and "m < length (iterations s)"
  shows "iterations s ! m = (map h (fst (src m)), snd (src m))"
proof -
  from assms(1) have "prefix (seen s) (concat (map (\<lambda>k. BaseDataLoader_iter h (src k)) [0..<calls s]))"
    unfolding sync_inv_def by (metis prefixI)
  from split_iter_prefix[OF this, of "[]"]
  have p: "prefix (iterations s) (map (\<lambda>k. (map h (fst (src k)), snd (src k))) [0..<calls s])"
    by (simp add: iterations_seen split_iter_base_concat)
  then have "length (iterations s) \<le> calls s" using prefix_length_le by fastforce
  with p assms(2) show ?thesis by (auto simp: prefix_def nth_append dest!: arg_cong[where f = "\<lambda>xs. xs ! m"])
qed

lemma sync_basic:
  assumes "n \<le> 0" and "run src h sch (init n) = Some s"
  shows "async s = None \<and> async_loader_queue_size s = n \<and> closing s = NotClosing \<and>
         gen s \<noteq> Some AsyncLoop \<and> ThreadStart \<notin> set (trace s) \<and> puts s = [] \<and>
         Worker \<notin> set sch \<and> CloseStep \<notin> set sch \<and>
         calls s = count_list sch CallIter \<and> length (seen s) = count_list sch Next"
  using assms(2)
proof (induction sch arbitrary: s rule: rev_induct)
  case Nil
  then show ?case using assms(1) by (auto simp: init_def puts_def seen_def)
next
  case (snoc x xs)
  then obtain s1 where r: "run src h xs (init n) = Some s1" and st: "step src h x s1 = Some s"
    by (auto simp: run_snoc)
  note ih = snoc.IH[OF r]
  show ?case
  proof (cases x)
    case Worker
    then show ?thesis using st ih by (simp add: async_worker_def)
  next
    case CallIter
    then show ?thesis using st ih assms(1)
      by (auto simp: iter_start_def puts_def seen_def split: if_splits prod.splits)
  next
    case Next
    then show ?thesis using st ih
      by (auto simp: iter_next_def puts_def seen_def
            split: if_splits option.splits gen_pc.splits list.splits)
  next
    case Drop
    then show ?thesis using st ih by (auto simp: iter_drop_def puts_def seen_def split: if_splits)
  next
    case CallClose
    then show ?thesis using st ih assms(1)
      by (auto simp: close_call_def puts_def seen_def split: if_splits)
  next
    case CloseStep
    then show ?thesis using st ih by (simp add: close_step_def)
  qed
qed

lemma BaseDataLoader_iter_Cons:
  "BaseDataLoader_iter h (b # items, out) = Yield (h b) # BaseDataLoader_iter h (items, out)"
  by (simp add: BaseDataLoader_iter_def)

lemma BaseDataLoader_iter_length [simp]:
  "length (BaseDataLoader_iter h p) = Suc (length (fst p))"
  by (simp add: BaseDataLoader_iter_def)

lemma sync_gen_run:
  assumes "closing s = NotClosing" and "gen s = Some (SyncLoop items out)"
    and "k \<le> Suc (length items)"
  shows "\<exists>s'. run src h (replicate k Next) s = Some s' \<and>
           trace s' = trace s @ take k (BaseDataLoader_iter h (items, out)) \<and>
           gen s' = (if k = Suc (length items) then None else Some (SyncLoop (drop k items) out)) \<and>
           closing s' = NotClosing \<and> calls s' = calls s"
  using assms
proof (induction k arbitrary: s items)
  case 0
  then show ?case by simp
next
  case (Suc k)
  show ?case
  proof (cases items)
    case Nil
    with Suc.prems have "k = 0" by simp
    with Nil Suc.prems show ?thesis
      by (auto simp: iter_next_def BaseDataLoader_iter_def)
  next
    case (Cons b rest)
    define t where "t = s\<lparr> gen := Some (SyncLoop rest out), trace := trace s @ [Yield (h b)] \<rparr>"
    have st: "step src h Next s = Some t"
      using Suc.prems Cons by (simp add: iter_next_def t_def)
    have "closing t = NotClosing" "gen t = Some (SyncLoop rest out)" "k \<le> Suc (length rest)"
      using Suc.prems Cons by (simp_all add: t_def)
    from Suc.IH[OF this] obtain s' where s': "run src h (replicate k Next) t = Some s'"
      "trace s' = trace t @ take k (BaseDataLoader_iter h (rest, out))"
      "gen s' = (if k = Suc (length rest) then None else Some (SyncLoop (drop k rest) out))"
      "closing s' = NotClosing" "calls s' = calls t" by blast
    then show ?thesis using st Cons
      by (simp add: t_def BaseDataLoader_iter_Cons)
  qed
qed

lemma sync_iterate:
  assumes "async_loader_queue_size s \<le> 0" and "closing s = NotClosing" and "gen s = None"
    and "k \<le> Suc (length (fst (src (calls s))))"
  shows "\<exists>s'. run src h (CallIter # replicate k Next) s = Some s' \<and>
           trace s' = trace s @ take k (BaseDataLoader_iter h (src (calls s))) \<and>
           gen s' = (if k = Suc (length (fst (src (calls s)))) then None
                     else Some (SyncLoop (drop k (fst (src (calls s)))) (snd (src (calls s))))) \<and>
           closing s' = NotClosing \<and> calls s' = Suc (calls s)"
proof -
  obtain items out where p: "src (calls s) = (items, out)" by (cases "src (calls s)")
  define t where "t = s\<lparr> calls := calls s + 1, gen := Some (SyncLoop items out) \<rparr>"
  have st: "step src h CallIter s = Some t"
    using assms(1,2,3) p by (simp add: iter_start_def t_def)
  have "closing t = NotClosing" "gen t = Some (SyncLoop items out)" "k \<le> Suc (length items)"
    using assms p by (simp_all add: t_def)
  from sync_gen_run[OF this, of src h] obtain s' where
    "run src h (replicate k Next) t = Some s'"
    "trace s' = trace t @ take k (BaseDataLoader_iter h (items, out))"
    "gen s' = (if k = Suc (length items) then None else Some (SyncLoop (drop k items) out))"
    "closing s' = NotClosing" "calls s' = calls t" by blast
  then show ?thesis using st p by (simp add: t_def)
qed

lemma sync_finish:
  assumes "sync_inv src h s"
  shows "\<exists>sch' s'. Drop \<notin> set sch' \<and> run src h sch' s = Some s' \<and> sync_inv src h s' \<and>
           gen s' = None \<and> calls s' = calls s"
proof (cases "gen s")
  case None
  with assms have "Drop \<notin> set [] \<and> run src h [] s = Some s \<and> sync_inv src h s \<and>
           gen s = None \<and> calls s = calls s" by simp
  then show ?thesis by blast
next
  case (Some g)
  with assms obtain items out where g: "gen s = Some (SyncLoop items out)"
    by (cases g) (auto simp: sync_inv_def)
  from assms have c: "closing s = NotClosing" by (simp add: sync_inv_def)
  from sync_gen_run[OF c g order_refl, of src h] obtain s' where
    s': "run src h (replicate (Suc (length items)) Next) s = Some s'" "gen s' = None"
        "calls s' = calls s" by auto
  have d: "Drop \<notin> set (replicate (Suc (length items)) Next)" by simp
  from sync_inv_run[OF assms s'(1) d] have "sync_inv src h s'" by simp
  with s' d show ?thesis by blast
qed

lemma sync_grow:
  assumes "sync_inv src h s"
  shows "\<exists>sch' s'. Drop \<notin> set sch' \<and> run src h sch' s = Some s' \<and> sync_inv src h s' \<and>
           gen s' = None \<and> K \<le> calls s'"
proof (induction K)
  case 0
  from sync_finish[OF assms] show ?case by auto
next
  case (Suc K)
  then obtain sch1 s1 where 1: "Drop \<notin> set sch1" "run src h sch1 s = Some s1"
    "sync_inv src h s1" "gen s1 = None" "K \<le> calls s1" by blast
  from 1(3) have c: "async_loader_queue_size s1 \<le> 0" "closing s1 = NotClosing"
    by (simp_all add: sync_inv_def)
  let ?it = "CallIter # replicate (Suc (length (fst (src (calls s1))))) Next"
  from sync_iterate[OF c 1(4) order_refl, of src h] obtain s2 where
    2: "run src h ?it s1 = Some s2" "gen s2 = None" "calls s2 = Suc (calls s1)" by auto
  have d: "Drop \<notin> set ?it" by simp
  from sync_inv_run[OF 1(3) 2(1) d] have "sync_inv src h s2" by simp
  moreover have "run src h (sch1 @ ?it) s = Some s2" using 1(2) 2(1) by (simp add: run_append)
  moreover have "Drop \<notin> set (sch1 @ ?it)" using 1(1) by simp
  ultimately have "Drop \<notin> set (sch1 @ ?it) \<and> run src h (sch1 @ ?it) s = Some s2 \<and>
     sync_inv src h s2 \<and> gen s2 = None \<and> Suc K \<le> calls s2" using 2 1(5) by simp
  then show ?case by blast
qed

lemma sync_iterations_done:
  assumes "sync_inv src h s" and "gen s = None"
  shows "iterations s = map (\<lambda>k. (map h (fst (src k)), snd (src k))) [0..<calls s]"
proof -
  from assms have "seen s = concat (map (\<lambda>k. BaseDataLoader_iter h (src k)) [0..<calls s])"
    by (simp add: sync_inv_def)
  then show ?thesis by (simp add: iterations_seen split_iter_base_concat)
qed

lemma sync_can_complete:
  assumes "sync_inv src h s"
  shows "\<exists>sch' s'. Drop \<notin> set sch' \<and> run src h sch' s = Some s' \<and> m < length (iterations s')"
proof -
  from sync_grow[OF assms, of "Suc m"] obtain sch' s' where
    1: "Drop \<notin> set sch'" "run src h sch' s = Some s'" "sync_inv src h s'" "gen s' = None"
       "Suc m \<le> calls s'" by blast
  from sync_iterations_done[OF 1(3,4)] 1(5) have "m < length (iterations s')" by simp
  with 1 show ?thesis by blast
qed

lemma direct_pull_Suc:
  "direct_pull h src (Suc k) = direct_pull h src k @ BaseDataLoader_iter h (src k)"
  by (simp add: direct_pull_def)

lemma direct_pull_prefix: "a \<le> b \<Longrightarrow> prefix (direct_pull h src a) (direct_pull h src b)"
proof (induction b)
  case 0
  then show ?case by simp
next
  case (Suc b)
  then show ?case
    by (cases "a = Suc b") (auto simp: direct_pull_Suc intro: prefix_order.trans)
qed

lemma direct_pull_length_less:
  "a < b \<Longrightarrow> length (direct_pull h src a) < length (direct_pull h src b)"
proof (induction b)
  case 0
  then show ?case by simp
next
  case (Suc b)
  then show ?case by (cases "a = b") (auto simp: direct_pull_Suc)
qed

lemma split_iter_direct_pull:
  "split_iter [] (direct_pull h src k) = map (\<lambda>k. (map h (fst (src k)), snd (src k))) [0..<k]"
  by (simp add: direct_pull_def split_iter_base_concat)

lemma sync_must_complete:
  assumes "sync_inv src h s" and "length (direct_pull h src (Suc m)) \<le> length (seen s)"
  shows "m < length (iterations s)"
proof -
  from assms(1) have eq: "seen s @ gen_rest h (gen s) = direct_pull h src (calls s)"
    by (simp add: sync_inv_def direct_pull_def)
  then have p: "prefix (seen s) (direct_pull h src (calls s))" by (metis prefixI)
  have "Suc m \<le> calls s"
  proof (rule ccontr)
    assume "\<not> Suc m \<le> calls s"
    then have "calls s < Suc m" by simp
    from direct_pull_length_less[OF this, of h src] prefix_length_le[OF p] assms(2)
    show False by simp
  qed
  from direct_pull_prefix[OF this, of h src] p assms(2)
  have "prefix (direct_pull h src (Suc m)) (seen s)"
    by (metis prefix_length_prefix)
  from split_iter_prefix[OF this, of "[]"]
  have "prefix (map (\<lambda>k. (map h (fst (src k)), snd (src k))) [0..<Suc m]) (iterations s)"
    by (simp only: split_iter_direct_pull iterations_seen)
  from prefix_length_le[OF this] show ?thesis by simp
qed

lemma sync_gen_rest_run:
  assumes "closing s = NotClosing" and "gen s \<noteq> Some AsyncLoop"
    and "k \<le> length (gen_rest h (gen s))"
  shows "map_option trace (run src h (replicate k Next) s) =
         Some (trace s @ take k (gen_rest h (gen s)))"
proof (cases "gen s")
  case None
  with assms show ?thesis by simp
next
  case (Some g)
  with assms obtain items out where g: "gen s = Some (SyncLoop items out)"
    by (cases g) auto
  have "k \<le> Suc (length items)" using assms(3) g by simp
  from sync_gen_run[OF assms(1) g this, of src h] g show ?thesis by auto
qed

lemma sync_basic_inv:
  assumes "n \<le> 0" and "run src h sch (init n) = Some s" and "Drop \<notin> set sch"
  shows "sync_inv src h s"
  using sync_inv_run[OF sync_inv_init[OF assms(1)] assms(2,3)] by simp

section \<open>The markers of the worker\<close>

lemma at_line_snoc [simp]:
  "at_line l (ps @ [Put line v]) = at_line l ps + (if line = l then 1 else 0)"
  by (simp add: at_line_def)

lemma at_line_Nil [simp]: "at_line l [] = 0"
  by (simp add: at_line_def)


















lemma puts_simps [simp]:
  "puts (s\<lparr>async := x, trace := trace s @ [Put line v]\<rparr>) = puts s @ [Put line v]"
  "puts (s\<lparr>async := x, trace := trace s @ [Put line v], trace := trace s @ [Put line v, Uncaught b]\<rparr>) = puts s @ [Put line v]"
  "puts (s\<lparr>async := x\<rparr>) = puts s"
  "puts (s\<lparr>calls := c\<rparr>) = puts s"
  "puts (s\<lparr>calls := c, async := x\<rparr>) = puts s"
  "puts (s\<lparr>gen := g\<rparr>) = puts s"
  "puts (s\<lparr>closing := cl\<rparr>) = puts s"
  by (simp_all add: puts_def)

lemma uncaught_simps [simp]:
  "uncaught (s\<lparr>async := x, trace := trace s @ [Put line v]\<rparr>) = uncaught s"
  "uncaught (s\<lparr>async := x\<rparr>) = uncaught s"
  "uncaught (s\<lparr>calls := c\<rparr>) = uncaught s"
  "uncaught (s\<lparr>calls := c, async := x\<rparr>) = uncaught s"
  "uncaught (s\<lparr>gen := g\<rparr>) = uncaught s"
  "uncaught (s\<lparr>closing := cl\<rparr>) = uncaught s"
  by (simp_all add: uncaught_def)





section \<open>Closing\<close>





text \<open>
  Whether a call of \<^verbatim>\<open>close_async_loader\<close> returns is another matter. With a queue of
  size 1 the drain loop can find the queue empty while the worker is about to put a
  batch; the worker then fills the queue, meets the event, and waits in line 102 for room
  that nobody makes, while the caller waits in \<^verbatim>\<open>thread.join()\<close>: no move is left.
\<close>

lemma close_can_block:
  "map_option (\<lambda>s. (closing s, map_option thread (async s), map_option queue (async s),
                    map (\<lambda>a. step abc_source process_batch a s = None)
                      [Worker, CallIter, Next, Drop, CallClose, CloseStep]))
     (run abc_source process_batch
        [CallIter, Worker, Worker, CallClose, CloseStep, Worker, Worker] (init 1)) =
   Some (Joining, Some PutPassMarker, Some [PyData 1], [True, True, True, True, True, True])"
  by code_simp




section \<open>Claim C2: the markers at the exit of the worker\<close>




text \<open>
  The exit marker can wait forever. With a queue of size 1 the consumer takes one batch and
  closes: the drain loop finds the queue empty, the worker then puts the marker of line
  102, and waits in line 107 for room that nobody makes while the caller waits in
  \<^verbatim>\<open>thread.join()\<close>. No move is left, and no marker of line 107 has been put.
\<close>

lemma exit_marker_can_wait:
  "map_option (\<lambda>s. (closing s, map_option thread (async s), map_option queue (async s),
                    at_line 107 (puts s),
                    map (\<lambda>a. step abc_source process_batch a s = None)
                      [Worker, CallIter, Next, Drop, CallClose, CloseStep]))
     (run abc_source process_batch
        [CallIter, Worker, Worker, Worker, Next, CallClose, CloseStep, Worker, Worker, Worker]
        (init 1)) =
   Some (Joining, Some PutFinalMarker, Some [PyNone], 0, [True, True, True, True, True, True])"
  by code_simp

section \<open>Claim C6: synchronous mode\<close>

text \<open>
  Claim C6. A loader of size 0 is constructed without error and without queue, thread
  or event. After any schedule whatever: no queue, thread or event exists, the worker has
  never moved, no thread was started and nothing was put; every iteration request has
  called \<^verbatim>\<open>_iterate()\<close> once, on the calling thread, and every resumption of a generator
  has handed exactly one thing to the consumer. A live generator, resumed \<open>k\<close> times,
  yields the next \<open>k\<close> things of the pass it holds. When no generator is live, a new one
  run for \<open>k\<close> steps hands the consumer the first \<open>k\<close> things that
  \<^verbatim>\<open>BaseDataLoader.__iter__\<close> gives on the next pass of the source: each batch through
  the hook, whatever the batch is, then the end of the pass or the exception that the
  source raised; and after the last of them the generator is finished.

  For a consumer that abandons no generator, what it has seen, followed by what the live
  generator still holds, is what pulling the passes called for directly gives, in
  order; so finished iteration \<open>m\<close> yielded the whole of pass \<open>m\<close> through the hook and
  ended as that pass ended; iteration \<open>m\<close> is finished as soon as the generators have
  been resumed as often as the passes 0 to \<open>m\<close> have things to give; and every
  iteration can be finished from every state reached.
\<close>

theorem sync_mode_pulls_directly:
  assumes "run src process sch (init 0) = Some s"
  shows "construct 0 = Inr (init 0) \<and> async (init 0) = None \<and> async s = None \<and>
         Worker \<notin> set sch \<and> ThreadStart \<notin> set (trace s) \<and> puts s = [] \<and>
         calls s = count_list sch CallIter \<and> length (seen s) = count_list sch Next \<and>
         (\<forall>k\<le>length (gen_rest process (gen s)).
            map_option trace (run src process (replicate k Next) s) =
              Some (trace s @ take k (gen_rest process (gen s)))) \<and>
         (gen s = None \<longrightarrow>
            (\<forall>k\<le>Suc (length (fst (src (calls s)))).
               map_option trace (run src process (CallIter # replicate k Next) s) =
                 Some (trace s @ take k (BaseDataLoader_iter process (src (calls s))))) \<and>
            map_option gen
              (run src process (CallIter # replicate (Suc (length (fst (src (calls s))))) Next) s) =
              Some None) \<and>
         (Drop \<notin> set sch \<longrightarrow>
            seen s @ gen_rest process (gen s) = direct_pull process src (calls s) \<and>
            (\<forall>m<length (iterations s).
               iterations s ! m = (map process (fst (src m)), snd (src m))) \<and>
            (\<forall>m. length (direct_pull process src (Suc m)) \<le> count_list sch Next \<longrightarrow>
               m < length (iterations s)) \<and>
            (\<forall>m. \<exists>sch' s'. Drop \<notin> set sch' \<and> run src process sch' s = Some s' \<and>
               m < length (iterations s')))"
proof -
  have z: "(0::int) \<le> 0" by simp
  from sync_basic[OF z assms] have b: "async s = None" "async_loader_queue_size s = 0"
    "closing s = NotClosing" "gen s \<noteq> Some AsyncLoop" "ThreadStart \<notin> set (trace s)"
    "puts s = []" "Worker \<notin> set sch" "calls s = count_list sch CallIter"
    "length (seen s) = count_list sch Next" by simp_all
  have 1: "construct 0 = Inr (init 0) \<and> async (init 0) = None"
    by (simp add: construct_def init_def)
  have 2: "\<forall>k\<le>length (gen_rest process (gen s)).
            map_option trace (run src process (replicate k Next) s) =
              Some (trace s @ take k (gen_rest process (gen s)))"
    using sync_gen_rest_run[OF b(3,4)] by blast
  have 3: "gen s = None \<longrightarrow>
            (\<forall>k\<le>Suc (length (fst (src (calls s)))).
               map_option trace (run src process (CallIter # replicate k Next) s) =
                 Some (trace s @ take k (BaseDataLoader_iter process (src (calls s))))) \<and>
            map_option gen
              (run src process (CallIter # replicate (Suc (length (fst (src (calls s))))) Next) s) =
              Some None"
  proof
    assume g: "gen s = None"
    have s0: "async_loader_queue_size s \<le> 0" using b(2) by simp
    have "map_option trace (run src process (CallIter # replicate k Next) s) =
                 Some (trace s @ take k (BaseDataLoader_iter process (src (calls s))))"
      if "k \<le> Suc (length (fst (src (calls s))))" for k
      using sync_iterate[where h = process and src = src, OF s0 b(3) g that] by auto
    moreover have "map_option gen
              (run src process (CallIter # replicate (Suc (length (fst (src (calls s))))) Next) s) =
              Some None"
      using sync_iterate[where h = process and src = src, OF s0 b(3) g order_refl] by auto
    ultimately show "(\<forall>k\<le>Suc (length (fst (src (calls s)))).
               map_option trace (run src process (CallIter # replicate k Next) s) =
                 Some (trace s @ take k (BaseDataLoader_iter process (src (calls s))))) \<and>
            map_option gen
              (run src process (CallIter # replicate (Suc (length (fst (src (calls s))))) Next) s) =
              Some None" by blast
  qed
  have 4: "Drop \<notin> set sch \<longrightarrow>
            seen s @ gen_rest process (gen s) = direct_pull process src (calls s) \<and>
            (\<forall>m<length (iterations s).
               iterations s ! m = (map process (fst (src m)), snd (src m))) \<and>
            (\<forall>m. length (direct_pull process src (Suc m)) \<le> count_list sch Next \<longrightarrow>
               m < length (iterations s)) \<and>
            (\<forall>m. \<exists>sch' s'. Drop \<notin> set sch' \<and> run src process sch' s = Some s' \<and>
               m < length (iterations s'))"
  proof
    assume d: "Drop \<notin> set sch"
    from sync_basic_inv[OF z assms d] have i: "sync_inv src process s" .
    from i have "seen s @ gen_rest process (gen s) = direct_pull process src (calls s)"
      by (simp add: sync_inv_def direct_pull_def)
    moreover have "\<forall>m<length (iterations s).
               iterations s ! m = (map process (fst (src m)), snd (src m))"
      using sync_nth_iteration[OF i] by blast
    moreover have "\<forall>m. length (direct_pull process src (Suc m)) \<le> count_list sch Next \<longrightarrow>
               m < length (iterations s)"
      using sync_must_complete[OF i] b(9) by simp
    moreover have "\<forall>m. \<exists>sch' s'. Drop \<notin> set sch' \<and> run src process sch' s = Some s' \<and>
               m < length (iterations s')"
      using sync_can_complete[OF i] by blast
    ultimately show "seen s @ gen_rest process (gen s) = direct_pull process src (calls s) \<and>
            (\<forall>m<length (iterations s).
               iterations s ! m = (map process (fst (src m)), snd (src m))) \<and>
            (\<forall>m. length (direct_pull process src (Suc m)) \<le> count_list sch Next \<longrightarrow>
               m < length (iterations s)) \<and>
            (\<forall>m. \<exists>sch' s'. Drop \<notin> set sch' \<and> run src process sch' s = Some s' \<and>
               m < length (iterations s'))" by blast
  qed
  from b 1 2 3 4 show ?thesis by blast
qed

theorem sync_mode_pulls_directly_witness:
  "(\<exists>s. run mixed_source process_batch [CallIter, Next, Drop, CallClose] (init 0) = Some s \<and>
        async s = None \<and> gen s = None \<and> calls s = 1 \<and> trace s = [Yield (PyData 1), CloseReturn] \<and>
        map_option trace (run mixed_source process_batch (CallIter # replicate 4 Next) s) =
          Some ([Yield (PyData 1), CloseReturn] @
                [Yield (PyData 1), Yield PyNone, Yield (PyExc ''stored''), Raise (Exc ''disk error'')]) \<and>
        map_option gen (run mixed_source process_batch (CallIter # replicate 4 Next) s) = Some None) \<and>
   (\<exists>s. run mixed_source process_batch
          [CallIter, Next, Next, Next, Next, CallClose, CallIter, Next] (init 0) = Some s \<and>
        async s = None \<and> ThreadStart \<notin> set (trace s) \<and> puts s = [] \<and> calls s = 2 \<and>
        length (seen s) = 5 \<and>
        iterations s = [([PyData 1, PyNone, PyExc ''stored''], Some (Exc ''disk error''))] \<and>
        iterations s ! 0 = (map process_batch (fst (mixed_source 0)), snd (mixed_source 0)) \<and>
        map_option trace (run mixed_source process_batch (replicate 3 Next) s) =
          Some (trace s @ [Yield PyNone, Yield (PyExc ''stored''), Raise (Exc ''disk error'')]))"
proof -
  let ?a = "[CallIter, Next, Drop, CallClose]"
  let ?b = "[CallIter, Next, Next, Next, Next, CallClose, CallIter, Next]"
  have "map_option (\<lambda>s. (gen s, calls s, trace s)) (run mixed_source process_batch ?a (init 0)) =
        Some (None, 1, [Yield (PyData 1), CloseReturn])"
    by code_simp
  then obtain s1 where r1: "run mixed_source process_batch ?a (init 0) = Some s1"
    "gen s1 = None" "calls s1 = 1" "trace s1 = [Yield (PyData 1), CloseReturn]" by auto
  have "map_option (\<lambda>s. (iterations s, gen s)) (run mixed_source process_batch ?b (init 0)) =
        Some ([([PyData 1, PyNone, PyExc ''stored''], Some (Exc ''disk error''))],
              Some (SyncLoop [PyNone, PyExc ''stored''] (Some (Exc ''disk error''))))"
    by code_simp
  then obtain s2 where r2: "run mixed_source process_batch ?b (init 0) = Some s2"
    "iterations s2 = [([PyData 1, PyNone, PyExc ''stored''], Some (Exc ''disk error''))]"
    "gen s2 = Some (SyncLoop [PyNone, PyExc ''stored''] (Some (Exc ''disk error'')))" by auto
  have m: "BaseDataLoader_iter process_batch (mixed_source 1) =
      [Yield (PyData 1), Yield PyNone, Yield (PyExc ''stored''), Raise (Exc ''disk error'')]"
    "fst (mixed_source 1) = [PyData 1, PyNone, PyExc ''stored'']"
    by (simp_all add: BaseDataLoader_iter_def mixed_source_def process_batch_def)
  have g: "gen_rest process_batch (gen s2) =
      [Yield PyNone, Yield (PyExc ''stored''), Raise (Exc ''disk error'')]"
    using r2(3) by (simp add: BaseDataLoader_iter_def process_batch_def)
  note t1 = sync_mode_pulls_directly[OF r1(1)]
  from t1 have a1: "async s1 = None" by blast
  from t1 r1(2) have "\<forall>k\<le>Suc (length (fst (mixed_source (calls s1)))).
               map_option trace (run mixed_source process_batch (CallIter # replicate k Next) s1) =
                 Some (trace s1 @ take k (BaseDataLoader_iter process_batch (mixed_source (calls s1))))"
    by blast
  from this[rule_format, of 4] r1(3,4) m
  have b1: "map_option trace (run mixed_source process_batch (CallIter # replicate 4 Next) s1) =
          Some ([Yield (PyData 1), CloseReturn] @
                [Yield (PyData 1), Yield PyNone, Yield (PyExc ''stored''), Raise (Exc ''disk error'')])"
    by simp
  from t1 r1(2) have "map_option gen (run mixed_source process_batch
       (CallIter # replicate (Suc (length (fst (mixed_source (calls s1))))) Next) s1) = Some None"
    by blast
  with r1(3) m have c1: "map_option gen
       (run mixed_source process_batch (CallIter # replicate 4 Next) s1) = Some None"
    by (simp add: numeral_eq_Suc)
  have d: "Drop \<notin> set ?b" by simp
  have cnt: "count_list ?b CallIter = 2" "count_list ?b Next = 5" by simp_all
  note t2 = sync_mode_pulls_directly[OF r2(1)]
  from t2 cnt have a2: "async s2 = None" "ThreadStart \<notin> set (trace s2)" "puts s2 = []"
    "calls s2 = 2" "length (seen s2) = 5" by simp_all
  from t2 d have "\<forall>m<length (iterations s2).
       iterations s2 ! m = (map process_batch (fst (mixed_source m)), snd (mixed_source m))"
    by blast
  from this[rule_format, of 0] r2(2)
  have b2: "iterations s2 ! 0 = (map process_batch (fst (mixed_source 0)), snd (mixed_source 0))"
    by simp
  from t2 have "\<forall>k\<le>length (gen_rest process_batch (gen s2)).
            map_option trace (run mixed_source process_batch (replicate k Next) s2) =
              Some (trace s2 @ take k (gen_rest process_batch (gen s2)))"
    by blast
  from this[rule_format, of 3] g
  have c2: "map_option trace (run mixed_source process_batch (replicate 3 Next) s2) =
          Some (trace s2 @ [Yield PyNone, Yield (PyExc ''stored''), Raise (Exc ''disk error'')])"
    by simp
  from r1 r2 a1 b1 c1 a2 b2 c2 show ?thesis by blast
qed

section \<open>Iterations in asynchronous mode\<close>

lemma plain_reach:
  "0 < n \<Longrightarrow> plain sch \<Longrightarrow> run src h sch (init n) = Some s \<Longrightarrow> pipe_inv src h s"
  by (rule pipe_inv_reach) (auto simp: plain_def)

lemma pass_out_not_Nil [simp]: "pass_out p \<noteq> []"
  by (cases p rule: pass_out.cases) auto

lemma stream_clean:
  "\<forall>j<m. clean_pass (src (k + j)) \<Longrightarrow>
   stream src k m = concat (map (\<lambda>j. fst (src j) @ [PyNone]) [k..<k + m])"
proof (induction m arbitrary: k)
  case 0
  then show ?case by simp
next
  case (Suc m)
  from Suc.prems[rule_format, of 0] have 0: "snd (src k) = None" by (simp add: clean_pass_def)
  then have p: "pass_out (src k) = fst (src k) @ [PyNone]" by (cases "src k") simp
  have "\<forall>j<m. clean_pass (src (Suc k + j))" using Suc.prems by auto
  from Suc.IH[OF this] have "stream src (Suc k) m =
     concat (map (\<lambda>j. fst (src j) @ [PyNone]) [Suc k..<Suc k + m])" .
  moreover have "[k..<k + Suc m] = k # [Suc k..<Suc k + m]"
    using upt_conv_Cons[of k "k + Suc m"] by simp
  ultimately show ?case using 0 p by (simp del: upt_Suc)
qed

lemma split_iter_pass:
  assumes "\<forall>j<m. clean_pass (src j)"
    and "pass_out (src m) = pre @ t # rest" and "list_all ordinary pre" and "\<not> ordinary t"
  shows "split_iter [] (map (deliver h) (stream src 0 (Suc m))) =
         map (\<lambda>j. (map h (fst (src j)), None)) [0..<m] @
         (map h pre, ending t) # split_iter [] (map (deliver h) rest)"
proof -
  have "split_iter [] (map (deliver h) (stream src 0 (m + 1))) =
         map (\<lambda>j. (map h (fst (src j)), None)) [0..<m] @
         split_iter [] (map (deliver h) (stream src m 1))"
    using split_iter_clean_stream[of m src 0 h 1] assms(1) by simp
  moreover have "split_iter [] (map (deliver h) (stream src m 1)) =
     (map h pre, ending t) # split_iter [] (map (deliver h) rest)"
    using split_iter_stop[OF assms(3,4), of "[]" h rest] assms(2) by simp
  ultimately show ?thesis by simp
qed


text \<open>Every move counts: a run cannot be long without the consumer seeing much.\<close>

lemma progress_worker:
  assumes "async s = Some a" and "\<not> finished_event a" and "async_worker src s = Some s'"
  shows "progress s < progress s'"
proof (cases "thread a")
  case LoopHead
  then show ?thesis using assms
    by (auto simp: progress_def async_worker_def goto_def seen_def split: prod.splits)
next
  case (ForNext items out)
  then show ?thesis using assms
    by (cases items; cases out)
       (auto simp: progress_def async_worker_def goto_def seen_def split: exc.splits)
next
  case (PutBatch b items out)
  then show ?thesis using assms
    by (auto simp: progress_def async_worker_def put_def seen_def split: if_splits)
next
  case PutPassMarker
  then show ?thesis using assms
    by (auto simp: progress_def async_worker_def put_def seen_def split: if_splits)
next
  case (PutExc e)
  then show ?thesis using assms
    by (auto simp: progress_def async_worker_def put_def seen_def split: if_splits)
next
  case PutExcMarker
  then show ?thesis using assms
    by (auto simp: progress_def async_worker_def put_def seen_def split: if_splits)
next
  case PutFinalMarker
  then show ?thesis using assms
    by (auto simp: progress_def async_worker_def put_def seen_def split: if_splits)
next
  case (PutFinalRaising b)
  then show ?thesis using assms
    by (auto simp: progress_def async_worker_def put_def seen_def split: if_splits)
qed (use assms in \<open>simp_all add: async_worker_def\<close>)

lemma progress_step:
  assumes "pipe_inv src h s" and "step src h a s = Some s'" and "a \<noteq> CallClose" and "a \<noteq> Drop"
  shows "progress s < progress s'"
proof -
  from assms(1) obtain b where b: "async s = Some b" "\<not> finished_event b"
    "0 < async_loader_queue_size s" "closing s = NotClosing" "gen s = None \<or> gen s = Some AsyncLoop"
    "started b \<longleftrightarrow> thread b \<noteq> NotStarted"
    by (auto simp: pipe_inv_def worker_inv_def consumer_inv_def split: option.splits)
  show ?thesis
  proof (cases a)
    case Worker
    then show ?thesis using progress_worker[OF b(1,2)] assms(2) by simp
  next
    case CallIter
    then show ?thesis using assms(2) b
      by (auto simp: progress_def iter_start_def seen_def split: if_splits)
  next
    case Next
    then show ?thesis using assms(2) b
      by (auto simp: progress_def iter_next_def seen_def split: list.splits)
  next
    case CloseStep
    then show ?thesis using assms(2) b by (simp add: close_step_def)
  qed (use assms(3,4) in auto)
qed

lemma progress_run:
  "pipe_inv src h s \<Longrightarrow> plain sch \<Longrightarrow> run src h sch s = Some s' \<Longrightarrow>
     progress s + length sch \<le> progress s'"
proof (induction sch arbitrary: s)
  case Nil
  then show ?case by simp
next
  case (Cons a as)
  from Cons.prems(3) obtain t where t: "step src h a s = Some t" "run src h as t = Some s'"
    by (auto split: option.splits)
  from Cons.prems(2) have a: "a \<noteq> CallClose" "a \<noteq> Drop" and pl: "plain as"
    by (auto simp: plain_def)
  have "pipe_inv src h t" using pipe_inv_step[OF Cons.prems(1) t(1) a(1)] .
  from Cons.IH[OF this pl t(2)] progress_step[OF Cons.prems(1) t(1) a] show ?case by simp
qed

lemma queue_fits_step: "queue_fits s \<Longrightarrow> step src h a s = Some s' \<Longrightarrow> queue_fits s'"
  by (cases a)
     (auto simp: queue_fits_def step_defs split: option.splits wpc.splits list.splits if_splits
        prod.splits gen_pc.splits close_pc.splits exc.splits)

lemma queue_fits_reach: "run src h sch (init n) = Some s \<Longrightarrow> queue_fits s"
  by (rule run_invariant[where P = queue_fits])
     (auto simp: queue_fits_def init_def intro: queue_fits_step[unfolded queue_fits_def])

lemma effort_le: "effort pc \<le> 2"
  by (cases pc) auto

lemma long_run_sees:
  assumes "0 < n" and "plain sch" and "run src h sch (init n) = Some s"
  shows "length sch \<le> 5 * length (seen s) + 3 * nat n + 3"
proof -
  have inv: "pipe_inv src h (init n)"
    using assms(1) by (simp add: pipe_inv_def worker_inv_init consumer_inv_init)
  have "progress (init n) = 0" using assms(1) by (simp add: progress_def init_def seen_def)
  with progress_run[OF inv assms(2,3)] have 1: "length sch \<le> progress s" by simp
  from queue_fits_reach[OF assms(3)] run_size[OF assms(3)]
  have 2: "case async s of None \<Rightarrow> True | Some a \<Rightarrow> length (queue a) \<le> nat n"
    by (auto simp: queue_fits_def init_def split: option.splits)
  have "progress s \<le> 5 * length (seen s) + 3 * nat n + 3"
  proof (cases "async s")
    case None
    then show ?thesis by (simp add: progress_def)
  next
    case (Some a)
    with 2 have "length (queue a) \<le> nat n" by simp
    with Some effort_le[of "thread a"] show ?thesis by (simp add: progress_def)
  qed
  with 1 show ?thesis by simp
qed


lemma stream_stops:
  assumes "\<forall>j<m. snd (src j) = None" and "snd (src m) \<noteq> None"
  shows "stream src 0 (Suc m + r) = stream src 0 m @ pass_out (src m)"
proof -
  have "stream src 0 (m + Suc r) = stream src 0 m @ stream src (0 + m) (Suc r)"
    using stream_add[of m src 0 "Suc r"] assms(1) by simp
  then show ?thesis using assms(2) by simp
qed

lemma pass_out_fault: "pass_out (items, Some x) = items @ fault_out x"
  by (cases x) auto

lemma split_iter_fault:
  assumes "\<forall>j<m. clean_pass (src j)" and "src m = (items, Some x)" and "list_all ordinary items"
  shows "split_iter [] (map (deliver h) (stream src 0 (Suc m + r))) =
         map (\<lambda>j. (map h (fst (src j)), None)) [0..<m] @
         (map h items, fault_end x) # replicate (spare_markers x) ([], None)"
proof -
  have nf: "\<forall>j<m. snd (src j) = None" using assms(1) by (simp add: clean_pass_def)
  have eq: "stream src 0 (Suc m + r) = stream src 0 (Suc m + 0)"
    using stream_stops[OF nf, of r] stream_stops[OF nf, of 0] assms(2) by simp
  show ?thesis
  proof (cases x)
    case (Exc e)
    have "split_iter [] (map (deliver h) (stream src 0 (Suc m))) =
         map (\<lambda>j. (map h (fst (src j)), None)) [0..<m] @
         (map h items, ending (PyExc e)) # split_iter [] (map (deliver h) [PyNone, PyNone])"
      using split_iter_pass[OF assms(1), of items "PyExc e" "[PyNone, PyNone]" h] assms(2,3) Exc
      by simp
    with eq Exc show ?thesis by (simp add: deliver_def numeral_2_eq_2)
  next
    case (BaseExc b)
    have "split_iter [] (map (deliver h) (stream src 0 (Suc m))) =
         map (\<lambda>j. (map h (fst (src j)), None)) [0..<m] @
         (map h items, ending PyNone) # split_iter [] (map (deliver h) [])"
      using split_iter_pass[OF assms(1), of items PyNone "[]" h] assms(2,3) BaseExc
      by simp
    with eq BaseExc show ?thesis by simp
  qed
qed

lemma iterations_after_fault:
  assumes "pipe_inv src h s"
    and "\<forall>j<m. clean_pass (src j)" and "src m = (items, Some x)" and "list_all ordinary items"
  shows "prefix (iterations s) (map (\<lambda>j. (map h (fst (src j)), None)) [0..<m] @
         (map h items, fault_end x) # replicate (spare_markers x) ([], None))"
  using iterations_prefix_stream[OF assms(1), of "Suc m + calls s"]
    split_iter_fault[OF assms(2,3,4), of h "calls s"] by simp

lemma split_iter_snoc_end:
  "length (split_iter acc (es @ [IterEnd])) = Suc (length (split_iter acc es))"
proof (induction es arbitrary: acc)
  case Nil
  then show ?case by simp
next
  case (Cons e es)
  then show ?case by (cases e) auto
qed

lemma split_iter_length_mono:
  "length (split_iter acc es) \<le> length (split_iter acc (es @ es'))"
  using split_iter_append[of acc es es'] by (rule prefix_length_le)

lemma pass_out_last: "snd p \<noteq> None \<Longrightarrow> \<exists>xs. pass_out p = xs @ [PyNone]"
proof (cases p)
  case (Pair items out)
  assume "snd p \<noteq> None"
  with Pair obtain x where "out = Some x" by auto
  with Pair have "pass_out p = (items @ butlast (fault_out x)) @ [PyNone]"
    by (cases x) auto
  then show ?thesis by blast
qed

lemma idle_thread:
  "pending pc = [] \<Longrightarrow> last_pass pc \<Longrightarrow> pc = Exited"
  by (cases pc) (auto dest: arg_cong[where f = length])

lemma drained_after_fault:
  assumes inv: "pipe_inv src h s"
    and clean: "\<forall>j<m. clean_pass (src j)" and pass: "src m = (items, Some x)" "list_all ordinary items"
    and len: "length (iterations s) = Suc m + spare_markers x"
  shows "\<exists>a. async s = Some a \<and> queue a = [] \<and> thread a = Exited"
proof -
  have nf: "\<forall>j<m. snd (src j) = None" using clean by (simp add: clean_pass_def)
  from pipe_inv_seen[OF inv] obtain a where a: "async s = Some a"
    and eq: "map (deliver h) (stream src 0 (calls s + Suc m)) =
       seen s @ map (deliver h) (queue a @ pending (thread a) @
          (if last_pass (thread a) then [] else stream src (calls s) (Suc m)))" by blast
  define X where "X = queue a @ pending (thread a) @
          (if last_pass (thread a) then [] else stream src (calls s) (Suc m))"
  have S: "stream src 0 (calls s + Suc m) = stream src 0 m @ pass_out (src m)"
    using stream_stops[OF nf, of "calls s"] pass(1) by (simp add: add.commute)
  have full: "length (split_iter [] (map (deliver h) (stream src 0 (calls s + Suc m)))) =
      Suc m + spare_markers x"
    using split_iter_fault[OF clean pass, of h "calls s"] by (simp add: add.commute)
  have "X = []"
  proof (rule ccontr)
    assume "X \<noteq> []"
    from pass_out_last[of "src m"] pass(1) obtain xs where xs: "pass_out (src m) = xs @ [PyNone]"
      by auto
    have "stream src 0 (calls s + Suc m) = (stream src 0 m @ xs) @ [PyNone]"
      using S xs by simp
    moreover have "map (deliver h) (stream src 0 (calls s + Suc m)) = seen s @ map (deliver h) X"
      using eq by (simp add: X_def)
    ultimately have "seen s @ map (deliver h) X = map (deliver h) (stream src 0 m @ xs) @ [IterEnd]"
      by (simp add: deliver_def)
    with \<open>X \<noteq> []\<close> obtain Y where Y: "map (deliver h) X = Y @ [IterEnd]"
      by (metis append_butlast_last_id last_appendR last_snoc map_is_Nil_conv)
    have "length (split_iter [] (seen s @ map (deliver h) X)) =
          Suc (length (split_iter [] (seen s @ Y)))"
      using split_iter_snoc_end[of "[]" "seen s @ Y"] Y by simp
    moreover have "length (split_iter [] (seen s)) \<le> length (split_iter [] (seen s @ Y))"
      by (rule split_iter_length_mono)
    ultimately have "Suc m + spare_markers x < length (split_iter [] (seen s @ map (deliver h) X))"
      using len by (simp add: iterations_seen)
    then show False using full eq by (simp add: X_def)
  qed
  then have q: "queue a = []" and p: "pending (thread a) = []"
    and l: "last_pass (thread a) \<or> stream src (calls s) (Suc m) = []"
    by (auto simp: X_def split: if_splits)
  from l have "last_pass (thread a)" by auto
  with p have "thread a = Exited" by (rule idle_thread)
  with a q show ?thesis by simp
qed

lemma blocked_forever:
  assumes "pipe_inv src h s" and "async s = Some a" and "queue a = []" and "thread a = Exited"
    and "plain sch" and "run src h sch s = Some s'"
  shows "Worker \<notin> set sch \<and> Next \<notin> set sch \<and> trace s' = trace s"
  using assms
proof (induction sch arbitrary: s a)
  case Nil
  then show ?case by simp
next
  case (Cons x xs)
  from Cons.prems(6) obtain t where t: "step src h x s = Some t" "run src h xs t = Some s'"
    by (auto split: option.splits)
  from Cons.prems(1) have c: "closing s = NotClosing" "gen s = None \<or> gen s = Some AsyncLoop"
    "0 < async_loader_queue_size s" "started a \<longleftrightarrow> thread a \<noteq> NotStarted"
    using Cons.prems(2) by (auto simp: pipe_inv_def consumer_inv_def worker_inv_def)
  from Cons.prems(5) have x: "x \<noteq> CallClose" "x \<noteq> Drop" and pl: "plain xs"
    by (auto simp: plain_def)
  have "x = CallIter"
  proof (cases x)
    case Worker
    then show ?thesis using t(1) Cons.prems(2,4) by (simp add: async_worker_def)
  next
    case Next
    then show ?thesis using t(1) Cons.prems(2,3) c by (auto simp: iter_next_def)
  next
    case CloseStep
    then show ?thesis using t(1) Cons.prems(2) c by (simp add: close_step_def)
  qed (use x in auto)
  with t(1) Cons.prems(2,3,4) c
  have "\<exists>b. async t = Some b \<and> queue b = [] \<and> thread b = Exited \<and> trace t = trace s"
    by (auto simp: iter_start_def split: if_splits)
  then obtain b where b: "async t = Some b" "queue b = []" "thread b = Exited"
    and tr: "trace t = trace s" by blast
  have "pipe_inv src h t" using pipe_inv_step[OF Cons.prems(1) t(1) x(1)] .
  from Cons.IH[OF this b pl t(2)] \<open>x = CallIter\<close> tr show ?case by simp
qed

lemma pass_out_append: "\<exists>tl. pass_out p = fst p @ tl"
  by (cases p rule: pass_out.cases) auto

lemma sync_reach:
  "run src h sch (init 0) = Some s \<Longrightarrow> Drop \<notin> set sch \<Longrightarrow> sync_inv src h s"
  using sync_inv_run[of src h "init 0" sch s] by (simp add: sync_inv_init)

lemma taken_simps [simp]:
  "is_taken (deliver h v)" "undiscard h (deliver h v) = deliver h v"
  by (cases v; auto simp: deliver_def)+

lemma taken_inv_init: "0 < n \<Longrightarrow> taken_inv h (init n)"
  by (simp add: taken_inv_def init_def put_vals_def puts_def taken_def)

lemma taken_inv_step:
  assumes "taken_inv h s" and "step src h a s = Some s'"
  shows "taken_inv h s'"
proof (cases a)
  case Worker
  then show ?thesis using assms
    by (auto simp: taken_inv_def step_defs put_vals_def puts_def taken_def
          split: option.splits wpc.splits list.splits if_splits prod.splits exc.splits)
next
  case CallIter
  then show ?thesis using assms
    by (auto simp: taken_inv_def step_defs put_vals_def puts_def taken_def
          split: option.splits if_splits)
next
  case Next
  then show ?thesis using assms
    by (auto simp: taken_inv_def step_defs put_vals_def puts_def taken_def
          split: option.splits if_splits list.splits)
next
  case Drop
  then show ?thesis using assms
    by (auto simp: taken_inv_def step_defs put_vals_def puts_def taken_def
          split: option.splits if_splits)
next
  case CallClose
  then show ?thesis using assms
    by (auto simp: taken_inv_def step_defs put_vals_def puts_def taken_def
          split: option.splits if_splits)
next
  case CloseStep
  then show ?thesis using assms
    by (auto simp: taken_inv_def step_defs put_vals_def puts_def taken_def
          split: option.splits if_splits close_pc.splits list.splits)
qed

lemma taken_inv_reach: "0 < n \<Longrightarrow> run src h sch (init n) = Some s \<Longrightarrow> taken_inv h s"
  by (rule run_invariant[where P = "taken_inv h"]) (auto intro: taken_inv_init taken_inv_step)

lemma taken_at:
  assumes "taken_inv h s" and "k < length (taken s)"
  shows "k < length (put_vals s) \<and> undiscard h (taken s ! k) = deliver h (put_vals s ! k)"
proof -
  from assms(1) obtain a where a: "async s = Some a"
    and eq: "map (deliver h) (put_vals s) =
      map (undiscard h) (taken s) @ map (deliver h) (queue a)"
    by (auto simp: taken_inv_def split: option.splits)
  from arg_cong[OF eq, of length] assms(2) have l: "k < length (put_vals s)" by simp
  from arg_cong[OF eq, of "\<lambda>xs. xs ! k"] assms(2) l
  have "deliver h (put_vals s ! k) = undiscard h (taken s ! k)" by (simp add: nth_append)
  with l show ?thesis by simp
qed

lemma undiscard_cases:
  "undiscard h ev = deliver h v \<Longrightarrow> is_taken ev \<Longrightarrow> ev = deliver h v \<or> (\<exists>w. ev = Discard w \<and> deliver h w = deliver h v)"
  by (cases ev) auto

lemma deliver_simps:
  "deliver h (PyExc e) = Raise (Exc e)" "deliver h PyNone = IterEnd"
  "deliver h (PyData d) = Yield (h (PyData d))"
  by (simp_all add: deliver_def)

lemma deliver_exc: "deliver h w = Raise x \<longleftrightarrow> (\<exists>e. w = PyExc e \<and> x = Exc e)"
  by (cases w) (auto simp: deliver_def)

lemma deliver_end: "deliver h w = IterEnd \<longleftrightarrow> w = PyNone"
  by (cases w) (auto simp: deliver_def)

lemma taken_is_taken: "k < length (taken s) \<Longrightarrow> is_taken (taken s ! k)"
  unfolding taken_def using nth_mem[of k "filter is_taken (trace s)"] by auto

lemma taken_exc:
  assumes "taken_inv h s" and "k < length (taken s)" and "put_vals s ! k = PyExc e"
  shows "taken s ! k = Raise (Exc e) \<or> taken s ! k = Discard (PyExc e)"
proof -
  from taken_at[OF assms(1,2)] assms(3)
  have "undiscard h (taken s ! k) = deliver h (PyExc e)" by simp
  from undiscard_cases[OF this taken_is_taken[OF assms(2)]]
  show ?thesis by (auto simp: deliver_simps deliver_exc)
qed

lemma taken_none:
  assumes "taken_inv h s" and "k < length (taken s)" and "put_vals s ! k = PyNone"
  shows "taken s ! k = IterEnd \<or> taken s ! k = Discard PyNone"
proof -
  from taken_at[OF assms(1,2)] assms(3)
  have "undiscard h (taken s ! k) = deliver h PyNone" by simp
  from undiscard_cases[OF this taken_is_taken[OF assms(2)]]
  show ?thesis by (auto simp: deliver_simps deliver_end)
qed

text \<open>Where a batch of a pass is in the stream.\<close>

lemma stream_at:
  assumes "\<forall>j<p. snd (src j) = None" and "i < length (fst (src p))"
  shows "position src p i < length (stream src 0 (Suc p + r)) \<and>
         stream src 0 (Suc p + r) ! position src p i = fst (src p) ! i"
proof -
  have "stream src 0 (p + Suc r) = stream src 0 p @ stream src (0 + p) (Suc r)"
    using stream_add[of p src 0 "Suc r"] assms(1) by simp
  moreover obtain tl where "pass_out (src p) = fst (src p) @ tl"
    using pass_out_append by blast
  ultimately have "stream src 0 (Suc p + r) = stream src 0 p @ fst (src p) @ tl @
      (if snd (src p) = None then stream src (Suc p) r else [])" by simp
  then show ?thesis using assms(2) by (simp add: position_def nth_append)
qed

lemma seen_at:
  assumes "pipe_inv src h s" and "\<forall>j<p. snd (src j) = None" and "i < length (fst (src p))"
    and "position src p i < length (seen s)"
  shows "seen s ! position src p i = deliver h (fst (src p) ! i)"
proof -
  define S where "S = stream src 0 (Suc p + calls s)"
  have "prefix (seen s) (map (deliver h) S)"
    unfolding S_def by (rule seen_prefix_stream[OF assms(1)]) simp
  then obtain zs where zs: "map (deliver h) S = seen s @ zs"
    by (auto simp: prefix_def)
  from stream_at[OF assms(2,3), of "calls s"]
  have at: "position src p i < length S" "S ! position src p i = fst (src p) ! i"
    by (simp_all add: S_def)
  from arg_cong[OF zs, of "\<lambda>xs. xs ! position src p i"] assms(4) at
  show ?thesis by (simp add: nth_append)
qed

lemma put_at:
  assumes "pipe_inv src h s" and "\<forall>j<p. snd (src j) = None" and "i < length (fst (src p))"
    and "position src p i < length (put_vals s)"
  shows "put_vals s ! position src p i = fst (src p) ! i"
proof -
  define S where "S = stream src 0 (Suc p + calls s)"
  from assms(1) obtain a where a: "async s = Some a"
    and w: "\<forall>n. stream src 0 (calls s + n) =
                put_vals s @ pending (thread a) @
                (if last_pass (thread a) then [] else stream src (calls s) n)"
    by (auto simp: pipe_inv_def worker_inv_def split: option.splits)
  have "calls s + Suc p = Suc p + calls s" by simp
  with w[rule_format, of "Suc p"] obtain zs where zs: "S = put_vals s @ zs"
    unfolding S_def by metis
  from stream_at[OF assms(2,3), of "calls s"]
  have at: "position src p i < length S" "S ! position src p i = fst (src p) ! i"
    by (simp_all add: S_def)
  from arg_cong[OF zs, of "\<lambda>xs. xs ! position src p i"] assms(4) at
  show ?thesis by (simp add: nth_append)
qed

lemma can_see_position:
  assumes "pipe_inv src h s" and "\<forall>j<p. snd (src j) = None" and "i < length (fst (src p))"
  shows "\<exists>sch' s'. plain sch' \<and> run src h sch' s = Some s' \<and> position src p i < length (seen s')"
proof -
  from can_see_stream[OF assms(1), of "Suc p"] obtain sch' s' where
    1: "plain sch'" "run src h sch' s = Some s'"
       "prefix (map (deliver h) (stream src 0 (Suc p))) (seen s')" by blast
  from prefix_length_le[OF 1(3)] stream_at[OF assms(2,3), of 0]
  have "position src p i < length (seen s')" by simp
  with 1 show ?thesis by blast
qed

lemma must_see_position:
  assumes "0 < n" and "plain sch" and "run src h sch (init n) = Some s"
    and "5 * Suc k + 3 * nat n + 3 \<le> length sch"
  shows "k < length (seen s)"
  using long_run_sees[OF assms(1,2,3)] assms(4) by simp

text \<open>Every generator ends once.\<close>

lemma split_iter_snoc_length:
  "length (split_iter acc (es @ [e])) = length (split_iter acc es) + (if is_end e then 1 else 0)"
proof (induction es arbitrary: acc)
  case Nil
  then show ?case by (cases e) auto
next
  case (Cons x es)
  then show ?case by (cases x) auto
qed

lemma is_end_deliver: "is_end (deliver h v) = ends_iter v"
  by (cases v) (auto simp: deliver_def ends_iter_def)

lemma iterations_snoc:
  "length (iterations (s\<lparr>trace := trace s @ [e]\<rparr>)) = length (iterations s) + (if is_end e then 1 else 0)"
  by (simp add: iterations_def split_iter_snoc_length)

lemma generators_counted:
  assumes "run src h sch (init n) = Some s" and "Drop \<notin> set sch"
  shows "length (iterations s) + live s = count_list sch CallIter"
  using assms
proof (induction sch arbitrary: s rule: rev_induct)
  case Nil
  then show ?case by (auto simp: iterations_def init_def live_def)
next
  case (snoc x xs)
  then obtain s1 where r: "run src h xs (init n) = Some s1" and st: "step src h x s1 = Some s"
    by (auto simp: run_snoc)
  from snoc.IH[OF r] snoc.prems(2)
  have ih: "length (iterations s1) + live s1 = count_list xs CallIter" by simp
  show ?case
  proof (cases x)
    case Worker
    have "length (iterations s) = length (iterations s1) \<and> gen s = gen s1"
      using worker_keeps[of src s1 s] st Worker by (simp add: iterations_seen)
    then show ?thesis using ih Worker by (simp add: live_def)
  next
    case CallIter
    then show ?thesis using st ih
      by (auto simp: iter_start_def iterations_def split_iter_snoc_length live_def
            split: option.splits if_splits prod.splits)
  next
    case Next
    then show ?thesis using st ih
      by (auto simp: iter_next_def iterations_def split_iter_snoc_length live_def is_end_deliver
            split: option.splits if_splits gen_pc.splits list.splits)
  next
    case Drop
    then show ?thesis using snoc.prems(2) by simp
  next
    case CallClose
    then show ?thesis using st ih
      by (auto simp: close_call_def iterations_def split_iter_snoc_length live_def
            split: option.splits if_splits)
  next
    case CloseStep
    then show ?thesis using st ih
      by (auto simp: close_step_def iterations_def split_iter_snoc_length live_def
            split: option.splits if_splits close_pc.splits list.splits)
  qed
qed

text \<open>
  In asynchronous mode only an ordinary batch is ever yielded, and only an \<^verbatim>\<open>Exception\<close>
  is ever raised.
\<close>

lemma async_events_step:
  assumes "0 < async_loader_queue_size s" and "gen s \<noteq> None \<longrightarrow> gen s = Some AsyncLoop"
    and "\<forall>v. Yield v \<in> set (trace s) \<longrightarrow> (\<exists>d. v = h (PyData d))"
    and "\<forall>x. Raise x \<in> set (trace s) \<longrightarrow> (\<exists>e. x = Exc e)"
    and "step src h a s = Some s'"
  shows "0 < async_loader_queue_size s' \<and> (gen s' \<noteq> None \<longrightarrow> gen s' = Some AsyncLoop) \<and>
         (\<forall>v. Yield v \<in> set (trace s') \<longrightarrow> (\<exists>d. v = h (PyData d))) \<and>
         (\<forall>x. Raise x \<in> set (trace s') \<longrightarrow> (\<exists>e. x = Exc e))"
proof (cases a)
  case Worker
  then show ?thesis using assms
    by (auto simp: step_defs
          split: option.splits wpc.splits list.splits if_splits prod.splits exc.splits)
next
  case CallIter
  then show ?thesis using assms
    by (auto simp: step_defs split: option.splits if_splits)
next
  case Next
  then show ?thesis using assms
    by (auto simp: step_defs deliver_def
          split: option.splits if_splits list.splits pyval.splits gen_pc.splits)
next
  case Drop
  then show ?thesis using assms by (auto simp: step_defs split: option.splits if_splits)
next
  case CallClose
  then show ?thesis using assms by (auto simp: step_defs split: option.splits if_splits)
next
  case CloseStep
  then show ?thesis using assms
    by (auto simp: step_defs split: option.splits if_splits close_pc.splits list.splits)
qed

lemma async_events:
  assumes "0 < n" and "run src h sch (init n) = Some s"
  shows "(\<forall>v. Yield v \<in> set (trace s) \<longrightarrow> (\<exists>d. v = h (PyData d))) \<and>
         (\<forall>x. Raise x \<in> set (trace s) \<longrightarrow> (\<exists>e. x = Exc e))"
proof -
  let ?P = "\<lambda>s. 0 < async_loader_queue_size s \<and> (gen s \<noteq> None \<longrightarrow> gen s = Some AsyncLoop) \<and>
         (\<forall>v. Yield v \<in> set (trace s) \<longrightarrow> (\<exists>d. v = h (PyData d))) \<and>
         (\<forall>x. Raise x \<in> set (trace s) \<longrightarrow> (\<exists>e. x = Exc e))"
  have "?P (init n)" using assms(1) by (simp add: init_def)
  with assms(2) have "?P s"
  proof (induction sch arbitrary: s rule: rev_induct)
    case Nil
    then show ?case by simp
  next
    case (snoc x xs)
    from snoc.prems(1) obtain s1 where r: "run src h xs (init n) = Some s1"
      and st: "step src h x s1 = Some s" by (auto simp: run_snoc)
    from snoc.IH[OF r snoc.prems(2)] have p: "?P s1" .
    from async_events_step[OF _ _ _ _ st] p show ?case by blast
  qed
  then show ?thesis by blast
qed

text \<open>After a pass that raised, the worker puts nothing more: every run is finite.\<close>

lemma fault_run_bounded:
  assumes "0 < n" and "plain sch" and "run src h sch (init n) = Some s"
    and "\<forall>j<m. snd (src j) = None" and "snd (src m) \<noteq> None"
  shows "length sch \<le> 5 * length (stream src 0 (Suc m)) + 3 * nat n + 3"
proof -
  have inv: "pipe_inv src h s" using plain_reach[OF assms(1,2,3)] .
  have "prefix (seen s) (map (deliver h) (stream src 0 (Suc m + calls s)))"
    by (rule seen_prefix_stream[OF inv]) simp
  moreover have "stream src 0 (Suc m + calls s) = stream src 0 (Suc m + 0)"
    using stream_stops[OF assms(4,5), of "calls s"] stream_stops[OF assms(4,5), of 0] by simp
  ultimately have "length (seen s) \<le> length (stream src 0 (Suc m))"
    using prefix_length_le by fastforce
  with long_run_sees[OF assms(1,2,3)] show ?thesis by simp
qed

section \<open>Claim C1: an iteration yields a pass\<close>




end
